theory Spec2Isabelle
  imports Complex_Main "HOL-Library.AList"
begin

section \<open>Text classifier: \<open>isValidProfileScreenshot\<close> (events/messageCreate.ts)\<close>

subsection \<open>The fragment of JavaScript regular expressions used by the two pattern tables\<close>

text \<open>
  OCR text is a \<^typ>\<open>string\<close>: a list of 8-bit code units. Every pattern of the source
  carries the \<open>i\<close> flag and is built from literal ASCII characters, \<open>\s\<close>, the
  classes \<open>[:\-]\<close> and \<open>[a-z\s]\<close>, the quantifiers \<open>*\<close>, \<open>?\<close>, \<open>+\<close> on a single
  character or class, concatenation and one alternation. \<open>RegExp.prototype.test\<close>
  only reports whether some substring matches, so backtracking order is irrelevant.
\<close>

definition code :: "char \<Rightarrow> nat" where
  "code c = of_char c"

text \<open>
  Canonical form under the \<open>i\<close> flag: ASCII lower-case letters go to upper case. A code
  unit from 128 on never canonicalises to an ASCII letter in JavaScript; it is left fixed
  here, which gives the same matches against the ASCII-only tables.
\<close>

definition canon :: "char \<Rightarrow> nat" where
  "canon c = (if 97 \<le> code c \<and> code c \<le> 122 then code c - 32 else code c)"

definition lowered :: "char \<Rightarrow> nat" where
  "lowered c = (if 65 \<le> code c \<and> code c \<le> 90 then code c + 32 else code c)"

text \<open>\<open>\s\<close>: tab, line feed, vertical tab, form feed, carriage return, space, no-break space.\<close>

definition isSpace :: "char \<Rightarrow> bool" where
  "isSpace c = (code c = 9 \<or> code c = 10 \<or> code c = 11 \<or> code c = 12 \<or> code c = 13
                \<or> code c = 32 \<or> code c = 160)"

datatype cset =
    Lit char
  | WS
  | Range char char
  | Union cset cset

fun cmatch :: "cset \<Rightarrow> char \<Rightarrow> bool" where
  "cmatch (Lit c) d = (canon d = canon c)"
| "cmatch WS d = isSpace d"
| "cmatch (Range lo hi) d =
     ((code lo \<le> code d \<and> code d \<le> code hi)
      \<or> (code lo \<le> canon d \<and> canon d \<le> code hi)
      \<or> (code lo \<le> lowered d \<and> lowered d \<le> code hi))"
| "cmatch (Union a b) d = (cmatch a d \<or> cmatch b d)"

datatype regex =
    Eps
  | Sym cset
  | Star cset
  | Plus cset
  | Opt cset
  | Seq regex regex
  | Alt regex regex

text \<open>\<open>many a k s\<close>: some (possibly empty) run of \<open>a\<close>-characters at the front of \<open>s\<close>
  leaves a rest accepted by the continuation \<open>k\<close>.\<close>

fun many :: "cset \<Rightarrow> (string \<Rightarrow> bool) \<Rightarrow> string \<Rightarrow> bool" where
  "many a k [] = k []"
| "many a k (c # cs) = ((cmatch a c \<and> many a k cs) \<or> k (c # cs))"

fun rmatch :: "regex \<Rightarrow> (string \<Rightarrow> bool) \<Rightarrow> string \<Rightarrow> bool" where
  "rmatch Eps k s = k s"
| "rmatch (Sym a) k s = (case s of [] \<Rightarrow> False | c # cs \<Rightarrow> cmatch a c \<and> k cs)"
| "rmatch (Star a) k s = many a k s"
| "rmatch (Plus a) k s = (case s of [] \<Rightarrow> False | c # cs \<Rightarrow> cmatch a c \<and> many a k cs)"
| "rmatch (Opt a) k s = ((case s of [] \<Rightarrow> False | c # cs \<Rightarrow> cmatch a c \<and> k cs) \<or> k s)"
| "rmatch (Seq r1 r2) k s = rmatch r1 (rmatch r2 k) s"
| "rmatch (Alt r1 r2) k s = (rmatch r1 k s \<or> rmatch r2 k s)"

text \<open>\<open>pattern.test(text)\<close> without the \<open>g\<close> flag: a match may start at any index.\<close>

fun test :: "regex \<Rightarrow> string \<Rightarrow> bool" where
  "test r [] = rmatch r (\<lambda>_. True) []"
| "test r (c # cs) = (rmatch r (\<lambda>_. True) (c # cs) \<or> test r cs)"

text \<open>A run of literal characters, and \<open>\s*\<close>.\<close>

fun lit :: "string \<Rightarrow> regex" where
  "lit [] = Eps"
| "lit (c # cs) = Seq (Sym (Lit c)) (lit cs)"

definition ws :: regex where
  "ws = Star WS"

fun seqs :: "regex list \<Rightarrow> regex" where
  "seqs [] = Eps"
| "seqs (r # rs) = Seq r (seqs rs)"

subsection \<open>The two tables and the classifier\<close>

definition profileIndicators :: "regex list" where
  "profileIndicators =
    [ lit ''profile'',
      seqs [lit ''rank'', ws, Opt (Union (Lit CHR '':'') (Lit CHR ''-'')), ws,
            Plus (Union (Range CHR ''a'' CHR ''z'') WS)],
      seqs [Alt (lit ''level'') (Alt (lit ''evel'') (lit ''lvl'')), ws, lit ''progress''],
      seqs [lit ''unique'', ws, lit ''id''],
      seqs [lit ''player'', ws, lit ''stats''] ]"

definition mainMenuIndicators :: "regex list" where
  "mainMenuIndicators =
    [ seqs [lit ''8'', ws, lit ''ball'', ws, lit ''pool'', ws, lit ''by'', ws, lit ''miniclip''],
      seqs [lit ''play'', ws, lit ''special''],
      seqs [lit ''play'', ws, lit ''minigames''],
      seqs [lit ''play'', ws, lit ''with'', ws, lit ''friends''],
      seqs [lit ''pool'', ws, lit ''pass''],
      seqs [lit ''free'', ws, lit ''rewards''],
      lit ''leaderboards'',
      lit ''shop'',
      lit ''clubs'',
      seqs [lit ''one'', ws, lit ''&'', ws, lit ''done''],
      seqs [lit ''event'', ws, lit ''hyperspace''],
      seqs [lit ''brainrot'', ws, lit ''shop''] ]"

text \<open>
  The first loop returns \<open>false\<close> at the first main-menu pattern that matches; the second
  loop sets \<open>hasProfileIndicator\<close> at the first profile pattern that matches.
\<close>

definition isValidProfileScreenshot :: "string \<Rightarrow> bool" where
  "isValidProfileScreenshot ocrText =
     (if list_ex (\<lambda>pattern. test pattern ocrText) mainMenuIndicators then False
      else let hasProfileIndicator = list_ex (\<lambda>pattern. test pattern ocrText) profileIndicators
           in if \<not> hasProfileIndicator then False else True)"

section \<open>Submission handling: \<open>processImage\<close> and \<open>handleMessageCreate\<close>\<close>

subsection \<open>Data\<close>

text \<open>A rank of the rank table, as passed to \<open>roleManager.assignRankRole\<close>.\<close>

record rankTier =
  role_id :: string
  rank_name :: string
  level_min :: int
  level_max :: int

text \<open>
  What \<open>rankMatcher.matchRank\<close> returns on success: the rank together with the level read
  from the text (if any) and the match confidence. Numbers are mathematical numbers here;
  \<open>NaN\<close> and the infinities are outside the model.
\<close>

record matchedRank = rankTier +
  level_detected :: "int option"
  match_confidence :: real

text \<open>
  One entry of the handler's \<open>results\<close> array; \<open>processImage\<close> returns the same shape
  without \<open>confidence\<close>. Every optional property is \<open>None\<close> when it is \<open>undefined\<close>.
\<close>

record result =
  success :: bool
  rank :: "matchedRank option"
  level :: "int option"
  confidence :: "real option"
  isProfile :: "bool option"

text \<open>
  An attachment, with what the platform and the external collaborators report for it:
  \<open>url_ext\<close> is \<open>path.extname(url).toLowerCase()\<close>, \<open>url_ext_noquery\<close> the same for
  the URL cut at its first \<open>?\<close>, and \<open>ocr_text\<close> the text that download followed by
  \<open>ocrService.extractText\<close> yields (\<open>None\<close> when either throws).
\<close>

record attachment =
  url_ext :: string
  url_ext_noquery :: string
  contentType :: "string option"
  ocr_text :: "string option"

record message =
  author_id :: string
  author_username :: string
  author_bot :: bool
  channel_id :: string
  attachments :: "attachment list"

text \<open>The stored row of a user (the timestamps kept by the store are left out).\<close>

record verification =
  discord_id :: string
  username :: string
  v_rank_name :: string
  v_level_detected :: int
  role_id_assigned :: string

type_synonym db = "string \<rightharpoonup> verification"

datatype 'a attempt = Threw | Returned 'a

text \<open>
  The collaborators of the handler that are not part of it: the configured channel, the
  rank matcher (\<open>matchRank\<close>, \<open>getRankByName\<close>), whether the author is found as a guild
  member, and whether the store and the role manager answer or throw.
\<close>

record env =
  RANK_CHANNEL_ID :: string
  matchRank :: "string \<Rightarrow> matchedRank option"
  getRankByName :: "string \<Rightarrow> rankTier option"
  members_fetch :: "bool attempt"
  getVerification_ok :: bool
  assignRankRole_ok :: bool
  upsertVerification_ok :: bool

datatype dm_text = InvalidFormat | Unreadable | ProcessingFailed

datatype effect =
    SendErrorDM string dm_text
  | AssignRankRole string rankTier
  | UpsertVerification verification
  | SendVerificationDM string string int
  | DeleteMessage

datatype outcome =
    Ignored
  | RejectInvalid
  | RejectUnreadable
  | NoRankOnBest
  | MemberNotFound
  | RejectNoUpgrade
  | Accept matchedRank int
  | VerificationError
  | UncaughtTypeError

record handled =
  outcome :: outcome
  effects :: "effect list"
  db_after :: db

subsection \<open>\<open>processImage\<close>\<close>

definition ALLOWED_IMAGE_EXTENSIONS :: "string list" where
  "ALLOWED_IMAGE_EXTENSIONS = [''.jpg'', ''.jpeg'', ''.png'']"

definition startsWith :: "string \<Rightarrow> string \<Rightarrow> bool" where
  "startsWith s p = (take (length p) s = p)"

definition isImage :: "string \<Rightarrow> string option \<Rightarrow> bool" where
  "isImage ext ct =
     (ext \<in> set ALLOWED_IMAGE_EXTENSIONS
      \<or> startsWith (case ct of None \<Rightarrow> [] | Some t \<Rightarrow> t) ''image/'')"

definition failure :: "bool option \<Rightarrow> result" where
  "failure p = \<lparr>success = False, rank = None, level = None, confidence = None, isProfile = p\<rparr>"

definition processImage :: "env \<Rightarrow> attachment \<Rightarrow> result" where
  "processImage e a =
     (if \<not> isImage (url_ext_noquery a) (contentType a) then failure None
      else (case ocr_text a of
        None \<Rightarrow> failure None
      | Some text \<Rightarrow>
          (if \<not> isValidProfileScreenshot text then failure (Some False)
           else (case matchRank e text of
             None \<Rightarrow> failure (Some True)
           | Some matched \<Rightarrow>
               \<lparr>success = True, rank = Some matched, level = level_detected matched,
                confidence = None, isProfile = None\<rparr>))))"

subsection \<open>\<open>handleMessageCreate\<close>\<close>

text \<open>The loop that fills \<open>results\<close>: a processed attachment is pushed when it matched a
  rank, or when it was classified as not a profile screen; otherwise nothing is pushed.\<close>

fun collectResults :: "env \<Rightarrow> attachment list \<Rightarrow> result list" where
  "collectResults e [] = []"
| "collectResults e (a # as) =
     (let r = processImage e a in
      if success r \<and> rank r \<noteq> None then
        \<lparr>success = True, rank = rank r, level = level r,
         confidence = map_option match_confidence (rank r), isProfile = isProfile r\<rparr>
          # collectResults e as
      else if isProfile r = Some False then
        \<lparr>success = False, rank = None, level = None, confidence = None,
         isProfile = Some False\<rparr> # collectResults e as
      else collectResults e as)"

text \<open>\<open>Array.prototype.reduce\<close> without an initial value: a \<open>TypeError\<close> on the empty
  array, otherwise a left fold that starts from the first element.\<close>

fun reduce :: "('a \<Rightarrow> 'a \<Rightarrow> 'a) \<Rightarrow> 'a list \<Rightarrow> 'a option" where
  "reduce f [] = None"
| "reduce f (x # xs) = Some (foldl f x xs)"

text \<open>\<open>best.confidence || 0\<close>: \<open>0\<close> for a missing confidence (and for the confidence \<open>0\<close>).\<close>

definition orZero :: "real option \<Rightarrow> real" where
  "orZero c = (case c of None \<Rightarrow> 0 | Some b \<Rightarrow> if b = 0 then 0 else b)"

text \<open>The callback of the reduce. An entry is an object, so \<open>!best\<close> is false; the
  left operand \<open>current.confidence\<close> of \<open>&&\<close> is truthy when it is a number other than \<open>0\<close>.\<close>

definition pickBetter :: "result \<Rightarrow> result \<Rightarrow> result" where
  "pickBetter best current =
     (if (case confidence current of
            None \<Rightarrow> False
          | Some c \<Rightarrow> c \<noteq> 0 \<and> c > orZero (confidence best))
      then current else best)"

definition bestMatch :: "result list \<Rightarrow> result option" where
  "bestMatch results = reduce pickBetter results"

text \<open>\<open>bestMatch.level || matchedRank.level_min\<close>.\<close>

definition levelDetected :: "int option \<Rightarrow> int \<Rightarrow> int" where
  "levelDetected lv lmin = (case lv of None \<Rightarrow> lmin | Some l \<Rightarrow> if l = 0 then lmin else l)"

text \<open>\<open>databaseService.upsertVerification\<close>: update the row of the user, or create it.\<close>

definition upsertVerification :: "verification \<Rightarrow> db \<Rightarrow> db" where
  "upsertVerification d store =
     (case store (discord_id d) of
        Some row \<Rightarrow>
          store(discord_id d \<mapsto>
            row\<lparr>username := username d, v_rank_name := v_rank_name d,
                v_level_detected := v_level_detected d,
                role_id_assigned := role_id_assigned d\<rparr>)
      | None \<Rightarrow> store(discord_id d \<mapsto> d))"

text \<open>\<open>if (existingVerification) { ... if (existingRank && existingRank.level_min >
  matchedRank.level_min) ... }\<close>\<close>

definition hasHigherRank :: "env \<Rightarrow> verification option \<Rightarrow> matchedRank \<Rightarrow> bool" where
  "hasHigherRank e existingVerification matched =
     (case existingVerification of
        None \<Rightarrow> False
      | Some ex \<Rightarrow>
          (case getRankByName e (v_rank_name ex) of
             None \<Rightarrow> False
           | Some existingRank \<Rightarrow> level_min existingRank > level_min matched))"

definition caught :: "effect list \<Rightarrow> message \<Rightarrow> db \<Rightarrow> handled" where
  "caught done m store =
     \<lparr>outcome = VerificationError,
      effects = done @ [SendErrorDM (author_id m) ProcessingFailed],
      db_after = store\<rparr>"

text \<open>
  The \<open>try\<close> block of the handler, entered with the matched rank of the best entry. A
  collaborator that throws ends it in the \<open>catch\<close> block. Calls of the logger are left
  out (they are taken not to throw); the two DM helpers catch their own failures, so an
  effect records that the DM was attempted.
\<close>

definition verifyBest :: "env \<Rightarrow> db \<Rightarrow> message \<Rightarrow> matchedRank \<Rightarrow> int \<Rightarrow> handled" where
  "verifyBest e store m matched lvl =
     (case members_fetch e of
        Threw \<Rightarrow> caught [] m store
      | Returned False \<Rightarrow> \<lparr>outcome = MemberNotFound, effects = [], db_after = store\<rparr>
      | Returned True \<Rightarrow>
          if \<not> getVerification_ok e then caught [] m store
          else if hasHigherRank e (store (author_id m)) matched then
            \<lparr>outcome = RejectNoUpgrade, effects = [DeleteMessage], db_after = store\<rparr>
          else if \<not> assignRankRole_ok e then caught [] m store
          else if \<not> upsertVerification_ok e then
            caught [AssignRankRole (author_id m) (rankTier.truncate matched)] m store
          else
            let d = \<lparr>discord_id = author_id m, username = author_username m,
                     v_rank_name = rank_name matched, v_level_detected = lvl,
                     role_id_assigned = role_id matched\<rparr>
            in \<lparr>outcome = Accept matched lvl,
                effects = [AssignRankRole (author_id m) (rankTier.truncate matched),
                           UpsertVerification d,
                           SendVerificationDM (author_id m) (rank_name matched) (level_min matched),
                           DeleteMessage],
                db_after = upsertVerification d store\<rparr>)"

definition imageAttachments :: "message \<Rightarrow> attachment list" where
  "imageAttachments m = filter (\<lambda>a. isImage (url_ext a) (contentType a)) (attachments m)"

definition handleMessageCreate :: "env \<Rightarrow> db \<Rightarrow> message \<Rightarrow> handled" where
  "handleMessageCreate e store m =
     (if author_bot m then \<lparr>outcome = Ignored, effects = [], db_after = store\<rparr>
      else if channel_id m \<noteq> RANK_CHANNEL_ID e then
        \<lparr>outcome = Ignored, effects = [], db_after = store\<rparr>
      else if length (imageAttachments m) = 0 then
        \<lparr>outcome = Ignored, effects = [], db_after = store\<rparr>
      else
        let results = collectResults e (imageAttachments m);
            invalidImages = filter (\<lambda>r. isProfile r = Some False) results
        in if length invalidImages > 0 then
             \<lparr>outcome = RejectInvalid,
              effects = [SendErrorDM (author_id m) InvalidFormat, DeleteMessage],
              db_after = store\<rparr>
           else if length results = 0 \<or> \<not> list_ex (\<lambda>r. success r \<and> rank r \<noteq> None) results then
             \<lparr>outcome = RejectUnreadable,
              effects = [SendErrorDM (author_id m) Unreadable, DeleteMessage],
              db_after = store\<rparr>
           else case bestMatch results of
             None \<Rightarrow> \<lparr>outcome = UncaughtTypeError, effects = [], db_after = store\<rparr>
           | Some best \<Rightarrow>
               (case rank best of
                  None \<Rightarrow> \<lparr>outcome = NoRankOnBest, effects = [], db_after = store\<rparr>
                | Some matched \<Rightarrow>
                    verifyBest e store m matched
                      (levelDetected (level best) (level_min matched))))"

text \<open>
  The handler does not hold the store between \<open>getVerification\<close> and
  \<open>upsertVerification\<close>: both are awaited, and handlers for one user are not serialised.
  \<open>verifyBestAt\<close> and \<open>handleMessageCreateAt\<close> are the \<open>try\<close> block and the handler with
  the two moments kept apart: \<open>seen\<close> is what \<open>getVerification\<close> returned, \<open>store\<close> is
  the store as the upsert finds it. \<open>verifyBest\<close> and \<open>handleMessageCreate\<close> above are
  the runs in which the row of the user is not written in between.
\<close>

definition verifyBestAt ::
    "env \<Rightarrow> verification option \<Rightarrow> db \<Rightarrow> message \<Rightarrow> matchedRank \<Rightarrow> int \<Rightarrow> handled" where
  "verifyBestAt e seen store m matched lvl =
     (case members_fetch e of
        Threw \<Rightarrow> caught [] m store
      | Returned False \<Rightarrow> \<lparr>outcome = MemberNotFound, effects = [], db_after = store\<rparr>
      | Returned True \<Rightarrow>
          if \<not> getVerification_ok e then caught [] m store
          else if hasHigherRank e seen matched then
            \<lparr>outcome = RejectNoUpgrade, effects = [DeleteMessage], db_after = store\<rparr>
          else if \<not> assignRankRole_ok e then caught [] m store
          else if \<not> upsertVerification_ok e then
            caught [AssignRankRole (author_id m) (rankTier.truncate matched)] m store
          else
            let d = \<lparr>discord_id = author_id m, username = author_username m,
                     v_rank_name = rank_name matched, v_level_detected = lvl,
                     role_id_assigned = role_id matched\<rparr>
            in \<lparr>outcome = Accept matched lvl,
                effects = [AssignRankRole (author_id m) (rankTier.truncate matched),
                           UpsertVerification d,
                           SendVerificationDM (author_id m) (rank_name matched) (level_min matched),
                           DeleteMessage],
                db_after = upsertVerification d store\<rparr>)"

definition handleMessageCreateAt :: "env \<Rightarrow> verification option \<Rightarrow> db \<Rightarrow> message \<Rightarrow> handled" where
  "handleMessageCreateAt e seen store m =
     (if author_bot m then \<lparr>outcome = Ignored, effects = [], db_after = store\<rparr>
      else if channel_id m \<noteq> RANK_CHANNEL_ID e then
        \<lparr>outcome = Ignored, effects = [], db_after = store\<rparr>
      else if length (imageAttachments m) = 0 then
        \<lparr>outcome = Ignored, effects = [], db_after = store\<rparr>
      else
        let results = collectResults e (imageAttachments m);
            invalidImages = filter (\<lambda>r. isProfile r = Some False) results
        in if length invalidImages > 0 then
             \<lparr>outcome = RejectInvalid,
              effects = [SendErrorDM (author_id m) InvalidFormat, DeleteMessage],
              db_after = store\<rparr>
           else if length results = 0 \<or> \<not> list_ex (\<lambda>r. success r \<and> rank r \<noteq> None) results then
             \<lparr>outcome = RejectUnreadable,
              effects = [SendErrorDM (author_id m) Unreadable, DeleteMessage],
              db_after = store\<rparr>
           else case bestMatch results of
             None \<Rightarrow> \<lparr>outcome = UncaughtTypeError, effects = [], db_after = store\<rparr>
           | Some best \<Rightarrow>
               (case rank best of
                  None \<Rightarrow> \<lparr>outcome = NoRankOnBest, effects = [], db_after = store\<rparr>
                | Some matched \<Rightarrow>
                    verifyBestAt e seen store m matched
                      (levelDetected (level best) (level_min matched))))"

subsection \<open>A concrete rank table, matcher and store for the examples\<close>

definition bronze :: rankTier where
  "bronze = \<lparr>role_id = ''r-bronze'', rank_name = ''Bronze'', level_min = 10, level_max = 49\<rparr>"

definition gold :: rankTier where
  "gold = \<lparr>role_id = ''r-gold'', rank_name = ''Gold'', level_min = 50, level_max = 79\<rparr>"

definition platinum :: rankTier where
  "platinum =
     \<lparr>role_id = ''r-platinum'', rank_name = ''Platinum'', level_min = 80, level_max = 120\<rparr>"

definition exampleRanks :: "rankTier list" where
  "exampleRanks = [bronze, gold, platinum]"

text \<open>Modelled from the spec: \<open>rankMatcher.getRankByName\<close> is not among the sources; the
  rank table is looked up by its unique \<open>rank_name\<close>.\<close>

definition lookupByName :: "rankTier list \<Rightarrow> string \<Rightarrow> rankTier option" where
  "lookupByName table name = find (\<lambda>t. rank_name t = name) table"

definition tierMatch :: "rankTier \<Rightarrow> int option \<Rightarrow> real \<Rightarrow> matchedRank" where
  "tierMatch t lv c = rankTier.extend t \<lparr>level_detected = lv, match_confidence = c\<rparr>"

text \<open>A stand-in for \<open>rankMatcher.matchRank\<close> on the texts of the examples.\<close>

definition exampleMatch :: "string \<Rightarrow> matchedRank option" where
  "exampleMatch text =
     (if text = ''Profile Gold 55'' then
        Some (tierMatch gold (Some 55) 90)
      else if text = ''Profile Gold'' then
        Some (tierMatch gold None 60)
      else if text = ''Profile Bronze 12'' then
        Some (tierMatch bronze (Some 12) 90)
      else if text = ''Profile Platinum 85'' then
        Some (tierMatch platinum (Some 85) 90)
      else None)"

definition exampleEnv :: env where
  "exampleEnv =
     \<lparr>RANK_CHANNEL_ID = ''rank-channel'', matchRank = exampleMatch,
      getRankByName = lookupByName exampleRanks, members_fetch = Returned True,
      getVerification_ok = True, assignRankRole_ok = True, upsertVerification_ok = True\<rparr>"

definition screenshot :: "string \<Rightarrow> attachment" where
  "screenshot text =
     \<lparr>url_ext = ''.png'', url_ext_noquery = ''.png'', contentType = Some ''image/png'',
      ocr_text = Some text\<rparr>"

definition submission :: "string list \<Rightarrow> message" where
  "submission texts =
     \<lparr>author_id = ''u1'', author_username = ''player'', author_bot = False,
      channel_id = ''rank-channel'', attachments = map screenshot texts\<rparr>"

definition storedAs :: "string \<Rightarrow> int \<Rightarrow> db" where
  "storedAs name lv =
     [''u1'' \<mapsto> \<lparr>discord_id = ''u1'', username = ''player'', v_rank_name = name,
                 v_level_detected = lv, role_id_assigned = ''r-old''\<rparr>]"

text \<open>An entry of \<open>results\<close> for a matched rank.\<close>

definition entry :: "rankTier \<Rightarrow> int option \<Rightarrow> real \<Rightarrow> result" where
  "entry t lv c = \<lparr>success = True, rank = Some (tierMatch t lv c), level = lv,
                   confidence = Some c, isProfile = None\<rparr>"

section \<open>DM cleanup service: \<open>DMCleanupService\<close> (services/dmCleanup.ts)\<close>

subsection \<open>State\<close>

record dmMessage =
  msg_id :: string
  msg_channel_id :: string
  isDMBased :: bool

record scheduledDeletion =
  messageId :: string
  channelId :: string
  deleteAt :: nat
  timeout :: nat

text \<open>A pending \<open>setTimeout\<close> of the runtime: its handle, the \<open>messageId\<close> its callback has
  captured, and the time from which it may fire.\<close>

record timer =
  timer_id :: nat
  captured :: string
  fires_at :: nat

text \<open>
  The service and the part of the runtime it talks to. \<open>scheduledDeletions\<close> is the
  \<open>Map\<close> of the class, in insertion order. \<open>timers\<close> are the live timeouts. A callback
  that has called \<open>message.delete()\<close> and awaits its result is in \<open>awaiting\<close> (timer and
  captured \<open>messageId\<close>); \<open>deleteCalls\<close> logs every such call. \<open>clock\<close> is \<open>Date.now()\<close>.
\<close>

record service =
  scheduledDeletions :: "(string \<times> scheduledDeletion) list"
  timers :: "timer list"
  awaiting :: "(nat \<times> string) list"
  deleteCalls :: "string list"
  nextTimer :: nat
  clock :: nat

definition DELETE_AFTER_MS :: nat where
  "DELETE_AFTER_MS = 30 * 60 * 1000"

definition initial :: "nat \<Rightarrow> service" where
  "initial now =
     \<lparr>scheduledDeletions = [], timers = [], awaiting = [], deleteCalls = [],
      nextTimer = 0, clock = now\<rparr>"

subsection \<open>Operations\<close>

definition clearTimeout :: "nat \<Rightarrow> timer list \<Rightarrow> timer list" where
  "clearTimeout t ts = filter (\<lambda>x. timer_id x \<noteq> t) ts"

definition cancelDeletion :: "string \<Rightarrow> service \<Rightarrow> service" where
  "cancelDeletion mid s =
     (case map_of (scheduledDeletions s) mid of
        None \<Rightarrow> s
      | Some scheduled \<Rightarrow>
          s\<lparr>timers := clearTimeout (timeout scheduled) (timers s),
            scheduledDeletions := AList.delete mid (scheduledDeletions s)\<rparr>)"

definition scheduleDeletion :: "dmMessage \<Rightarrow> service \<Rightarrow> service" where
  "scheduleDeletion m s =
     (if \<not> isDMBased m then s
      else
        let due = clock s + DELETE_AFTER_MS;
            s1 = cancelDeletion (msg_id m) s;
            t = nextTimer s1;
            s2 = s1\<lparr>timers := timers s1 @
                       [\<lparr>timer_id = t, captured = msg_id m,
                         fires_at = clock s1 + DELETE_AFTER_MS\<rparr>],
                     nextTimer := Suc t\<rparr>
        in s2\<lparr>scheduledDeletions :=
                 AList.update (msg_id m)
                   \<lparr>messageId = msg_id m, channelId = msg_channel_id m, deleteAt = due,
                    timeout = t\<rparr>
                   (scheduledDeletions s2)\<rparr>)"

text \<open>The callback of a timer starts: the timer is spent, \<open>message.delete()\<close> is called
  and the callback waits for it. A timer fires only when live and due.\<close>

definition timerFires :: "nat \<Rightarrow> service \<Rightarrow> service" where
  "timerFires t s =
     (case find (\<lambda>x. timer_id x = t) (timers s) of
        None \<Rightarrow> s
      | Some x \<Rightarrow>
          if clock s < fires_at x then s
          else s\<lparr>timers := clearTimeout t (timers s),
                 awaiting := awaiting s @ [(t, captured x)],
                 deleteCalls := deleteCalls s @ [captured x]\<rparr>)"

text \<open>The awaited \<open>message.delete()\<close> settles: the \<open>try\<close> path (\<open>ok\<close>) and the \<open>catch\<close>
  path both end in \<open>scheduledDeletions.delete(messageId)\<close>.\<close>

definition deleteSettles :: "nat \<Rightarrow> bool \<Rightarrow> service \<Rightarrow> service" where
  "deleteSettles t ok s =
     (case map_of (awaiting s) t of
        None \<Rightarrow> s
      | Some mid \<Rightarrow>
          if ok then
            s\<lparr>awaiting := AList.delete t (awaiting s),
              scheduledDeletions := AList.delete mid (scheduledDeletions s)\<rparr>
          else
            s\<lparr>awaiting := AList.delete t (awaiting s),
              scheduledDeletions := AList.delete mid (scheduledDeletions s)\<rparr>)"

definition cleanup :: "service \<Rightarrow> service" where
  "cleanup s =
     s\<lparr>timers := foldr (\<lambda>(_, scheduled). clearTimeout (timeout scheduled))
                   (scheduledDeletions s) (timers s),
       scheduledDeletions := []\<rparr>"

subsection \<open>Runs of the service\<close>

datatype event =
    ScheduleDeletion dmMessage
  | CancelDeletion string
  | Elapse nat
  | TimerFires nat
  | DeleteSettles nat bool
  | Cleanup

fun step :: "event \<Rightarrow> service \<Rightarrow> service" where
  "step (ScheduleDeletion m) s = scheduleDeletion m s"
| "step (CancelDeletion mid) s = cancelDeletion mid s"
| "step (Elapse d) s = s\<lparr>clock := clock s + d\<rparr>"
| "step (TimerFires t) s = timerFires t s"
| "step (DeleteSettles t ok) s = deleteSettles t ok s"
| "step Cleanup s = cleanup s"

fun run :: "event list \<Rightarrow> service \<Rightarrow> service" where
  "run [] s = s"
| "run (e # es) s = run es (step e s)"

text \<open>The live timers whose callback will delete message \<open>h\<close>, the callbacks for \<open>h\<close>
  that await their delete, and the delete calls made on \<open>h\<close>.\<close>

definition pendingFor :: "string \<Rightarrow> service \<Rightarrow> timer list" where
  "pendingFor h s = filter (\<lambda>x. captured x = h) (timers s)"

definition awaitingFor :: "string \<Rightarrow> service \<Rightarrow> (nat \<times> string) list" where
  "awaitingFor h s = filter (\<lambda>p. snd p = h) (awaiting s)"

definition deleteCallsOn :: "string \<Rightarrow> service \<Rightarrow> string list" where
  "deleteCallsOn h s = filter (\<lambda>x. x = h) (deleteCalls s)"

text \<open>The single-writer discipline for the timer of one handle (section 5 of the design):
  \<open>scheduleDeletion\<close> is not called for \<open>h\<close> while a callback for \<open>h\<close> awaits its delete.\<close>

fun schedules :: "string \<Rightarrow> event \<Rightarrow> bool" where
  "schedules h (ScheduleDeletion m) = (isDMBased m \<and> msg_id m = h)"
| "schedules h _ = False"

fun exclusive :: "string \<Rightarrow> event list \<Rightarrow> service \<Rightarrow> bool" where
  "exclusive h [] s = True"
| "exclusive h (e # es) s =
     ((if schedules h e then awaitingFor h s = [] else True) \<and> exclusive h es (step e s))"

text \<open>Every live timer for \<open>h\<close> is the one recorded for \<open>h\<close> in the registry.\<close>

definition registered :: "string \<Rightarrow> service \<Rightarrow> bool" where
  "registered h s =
     list_all (\<lambda>x. map_option timeout (map_of (scheduledDeletions s) h) = Some (timer_id x))
       (pendingFor h s)"

text \<open>Timer handles are distinct and below the next handle of the runtime.\<close>

definition fresh :: "service \<Rightarrow> bool" where
  "fresh s = (distinct (map timer_id (timers s))
              \<and> list_all (\<lambda>x. timer_id x < nextTimer s) (timers s))"

text \<open>The timers recorded in the registry were handed out by the runtime before.\<close>

definition recorded :: "service \<Rightarrow> bool" where
  "recorded s = list_all (\<lambda>p. timeout (snd p) < nextTimer s) (scheduledDeletions s)"

text \<open>The timers of \<open>h\<close> are under the control of the registry: every live one is the
  registered one, and none is live while a callback for \<open>h\<close> awaits its delete.\<close>

definition tracked :: "string \<Rightarrow> service \<Rightarrow> bool" where
  "tracked h s = (registered h s \<and> (awaitingFor h s = [] \<or> pendingFor h s = []))"

definition exampleDM :: dmMessage where
  "exampleDM = \<lparr>msg_id = ''m1'', msg_channel_id = ''dm1'', isDMBased = True\<rparr>"

section \<open>Properties of the classifier\<close>

lemma many_extend:
  assumes "many a k s" and "\<forall>v. k v \<longrightarrow> k' (v @ post)"
  shows "many a k' (s @ post)"
  using assms(1)
proof (induction s)
  case Nil
  then have "k []" by simp
  with assms(2) have "k' ([] @ post)" by blast
  then have "k' post" by simp
  then show ?case by (cases post) simp_all
next
  case (Cons c cs)
  from Cons.prems have "(cmatch a c \<and> many a k cs) \<or> k (c # cs)" by simp
  then show ?case
  proof
    assume "cmatch a c \<and> many a k cs"
    with Cons.IH show ?thesis by simp
  next
    assume "k (c # cs)"
    with assms(2) have "k' ((c # cs) @ post)" by blast
    then show ?thesis by simp
  qed
qed

lemma sym_extend:
  assumes "case s of [] \<Rightarrow> False | c # cs \<Rightarrow> cmatch a c \<and> k cs"
    and "\<forall>v. k v \<longrightarrow> k' (v @ post)"
  shows "case s @ post of [] \<Rightarrow> False | c # cs \<Rightarrow> cmatch a c \<and> k' cs"
  using assms by (cases s) auto

lemma rmatch_extend:
  "rmatch r k s \<Longrightarrow> \<forall>v. k v \<longrightarrow> k' (v @ post) \<Longrightarrow> rmatch r k' (s @ post)"
proof (induction r arbitrary: k k' s)
  case Eps
  then show ?case by simp
next
  case (Sym a)
  then show ?case using sym_extend[where s = s and a = a and k = k and k' = k' and post = post] by simp
next
  case (Star a)
  then show ?case by (simp add: many_extend)
next
  case (Plus a)
  then show ?case
    using sym_extend[where s = s and a = a and k = "many a k" and k' = "many a k'" and post = post]
      many_extend[where a = a and k = k and k' = k' and post = post]
    by simp
next
  case (Opt a)
  then show ?case using sym_extend[where s = s and a = a and k = k and k' = k' and post = post] by auto
next
  case (Seq r1 r2)
  have "\<forall>v. rmatch r2 k v \<longrightarrow> rmatch r2 k' (v @ post)"
    using Seq.IH(2) Seq.prems(2) by blast
  moreover have "rmatch r1 (rmatch r2 k) s" using Seq.prems(1) by simp
  ultimately have "rmatch r1 (rmatch r2 k') (s @ post)" by (rule Seq.IH(1)[rotated])
  then show ?case by simp
next
  case (Alt r1 r2)
  then show ?case by auto
qed

lemma test_suffix: "test r s \<Longrightarrow> test r (s @ post)"
proof (induction s)
  case Nil
  then have "rmatch r (\<lambda>_. True) []" by simp
  then have "rmatch r (\<lambda>_. True) ([] @ post)" by (rule rmatch_extend) simp
  then show ?case by (cases post) simp_all
next
  case (Cons c cs)
  from Cons.prems have "rmatch r (\<lambda>_. True) (c # cs) \<or> test r cs" by simp
  then show ?case
  proof
    assume "rmatch r (\<lambda>_. True) (c # cs)"
    then have "rmatch r (\<lambda>_. True) ((c # cs) @ post)" by (rule rmatch_extend) simp
    then show ?thesis by simp
  next
    assume "test r cs"
    with Cons.IH show ?thesis by simp
  qed
qed

lemma test_prefix: "test r s \<Longrightarrow> test r (pre @ s)"
  by (induction pre) auto

lemma test_substring: "test r s \<Longrightarrow> test r (pre @ s @ post)"
  by (simp add: test_suffix test_prefix)

lemmas rx_eval = ws_def canon_def code_def isSpace_def lowered_def

lemmas cls_eval = isValidProfileScreenshot_def mainMenuIndicators_def profileIndicators_def rx_eval

lemma miniclip_hit: "test (mainMenuIndicators ! 0) ''8 Ball Pool by Miniclip''"
  by (simp add: mainMenuIndicators_def rx_eval)

lemma special_hit: "test (mainMenuIndicators ! 1) ''Play Special''"
  by (simp add: mainMenuIndicators_def rx_eval)

lemma classify_iff:
  "isValidProfileScreenshot t \<longleftrightarrow>
     \<not> (\<exists>p \<in> set mainMenuIndicators. test p t) \<and> (\<exists>p \<in> set profileIndicators. test p t)"
  by (auto simp: isValidProfileScreenshot_def list_ex_iff Let_def)

lemma miniclip_rejected: "\<not> isValidProfileScreenshot (pre @ ''8 Ball Pool by Miniclip'' @ post)"
proof -
  have "mainMenuIndicators ! 0 \<in> set mainMenuIndicators"
    by (simp add: mainMenuIndicators_def)
  moreover have "test (mainMenuIndicators ! 0) (pre @ ''8 Ball Pool by Miniclip'' @ post)"
    using miniclip_hit by (rule test_substring)
  ultimately show ?thesis unfolding classify_iff by blast
qed

lemma special_rejected: "\<not> isValidProfileScreenshot (pre @ ''Play Special'' @ post)"
proof -
  have "mainMenuIndicators ! 1 \<in> set mainMenuIndicators"
    by (simp add: mainMenuIndicators_def)
  moreover have "test (mainMenuIndicators ! 1) (pre @ ''Play Special'' @ post)"
    using special_hit by (rule test_substring)
  ultimately show ?thesis unfolding classify_iff by blast
qed

lemma gold_no_menu: "\<not> list_ex (\<lambda>p. test p ''Rank: Gold'') mainMenuIndicators"
  by (simp add: mainMenuIndicators_def rx_eval)

lemma gold_profile: "list_ex (\<lambda>p. test p ''Rank: Gold'') profileIndicators"
  by (simp add: profileIndicators_def rx_eval)

text \<open>
  C4. The classifier answers \<open>false\<close> as soon as a main-menu pattern matches, whatever the
  profile patterns say; without a main-menu match it answers \<open>true\<close> exactly when some
  profile pattern matches. In particular every text that contains
  \<open>8 Ball Pool by Miniclip\<close> or \<open>Play Special\<close> is classified \<open>false\<close>.
\<close>

theorem classify_disqualifying_first:
  "((\<exists>p \<in> set mainMenuIndicators. test p t) \<longrightarrow> isValidProfileScreenshot t = False)
   \<and> (\<not> (\<exists>p \<in> set mainMenuIndicators. test p t) \<longrightarrow>
        isValidProfileScreenshot t = (\<exists>p \<in> set profileIndicators. test p t))
   \<and> isValidProfileScreenshot (pre @ ''8 Ball Pool by Miniclip'' @ post) = False
   \<and> isValidProfileScreenshot (pre' @ ''Play Special'' @ post') = False"
  using classify_iff[of t] miniclip_rejected[of pre post] special_rejected[of pre' post']
  by blast

theorem classify_disqualifying_first_witness:
  "test (mainMenuIndicators ! 1) ''Profile Level 42 Play Special''
   \<and> isValidProfileScreenshot ''Profile Level 42 Play Special'' = False
   \<and> isValidProfileScreenshot ''Level 42 8 Ball Pool by Miniclip Rank: Gold'' = False
   \<and> isValidProfileScreenshot ''Rank: Gold'' = True"
proof -
  have hit: "test (mainMenuIndicators ! 1) ''Profile Level 42 Play Special''"
    using test_prefix[OF special_hit, of "''Profile Level 42 ''"] by simp
  have mem: "mainMenuIndicators ! 1 \<in> set mainMenuIndicators"
    by (simp add: mainMenuIndicators_def)
  have gold: "\<not> (\<exists>p \<in> set mainMenuIndicators. test p ''Rank: Gold'')"
    using gold_no_menu unfolding list_ex_iff .
  have gold': "\<exists>p \<in> set profileIndicators. test p ''Rank: Gold''"
    using gold_profile unfolding list_ex_iff .
  have a: "isValidProfileScreenshot ''Profile Level 42 Play Special'' = False"
    using classify_disqualifying_first[of "''Profile Level 42 Play Special''" "[]" "[]" "[]" "[]"]
      hit mem by blast
  have "isValidProfileScreenshot (''Level 42 '' @ ''8 Ball Pool by Miniclip'' @ '' Rank: Gold'') = False"
    using classify_disqualifying_first[of "[]" "''Level 42 ''" "'' Rank: Gold''" "[]" "[]"]
    by blast
  then have b: "isValidProfileScreenshot ''Level 42 8 Ball Pool by Miniclip Rank: Gold'' = False"
    by simp
  have c: "isValidProfileScreenshot ''Rank: Gold'' = True"
    using classify_disqualifying_first[of "''Rank: Gold''" "[]" "[]" "[]" "[]"] gold gold'
    by blast
  show ?thesis using hit a b c by blast
qed

section \<open>Properties of the submission handler\<close>

lemma collect_invalid:
  "a \<in> set as \<Longrightarrow> isProfile (processImage e a) = Some False \<Longrightarrow>
   filter (\<lambda>r. isProfile r = Some False) (collectResults e as) \<noteq> []"
  by (induction as) (auto simp: Let_def)

lemma collect_no_invalid:
  "\<forall>a \<in> set as. isProfile (processImage e a) \<noteq> Some False \<Longrightarrow>
   filter (\<lambda>r. isProfile r = Some False) (collectResults e as) = []"
  by (induction as) (auto simp: Let_def)

lemma collect_no_match:
  "\<forall>a \<in> set as. rank (processImage e a) = None \<Longrightarrow>
   \<not> list_ex (\<lambda>r. success r \<and> rank r \<noteq> None) (collectResults e as)"
  by (induction as) (auto simp: Let_def)

lemma handle_reaches_best:
  assumes "\<not> author_bot m" "channel_id m = RANK_CHANNEL_ID e"
    and "filter (\<lambda>r. isProfile r = Some False) (collectResults e (imageAttachments m)) = []"
    and "list_ex (\<lambda>r. success r \<and> rank r \<noteq> None) (collectResults e (imageAttachments m))"
    and "bestMatch (collectResults e (imageAttachments m)) = Some best"
    and "rank best = Some matched"
  shows "handleMessageCreate e store m =
           verifyBest e store m matched (levelDetected (level best) (level_min matched))"
proof -
  have "collectResults e (imageAttachments m) \<noteq> []" using assms(4) by auto
  then have "imageAttachments m \<noteq> []" by auto
  then show ?thesis using assms \<open>collectResults e (imageAttachments m) \<noteq> []\<close>
    by (simp add: handleMessageCreate_def Let_def)
qed

lemma hasHigherRank_iff:
  "hasHigherRank e prior matched \<longleftrightarrow>
     (\<exists>ex t. prior = Some ex \<and> getRankByName e (v_rank_name ex) = Some t
              \<and> level_min t > level_min matched)"
  by (auto simp: hasHigherRank_def split: option.splits)

subsection \<open>The examples, evaluated\<close>

lemmas ex_eval = exampleEnv_def exampleMatch_def
  screenshot_def

lemmas img_eval = isImage_def startsWith_def ALLOWED_IMAGE_EXTENSIONS_def

lemma valid_examples:
  "isValidProfileScreenshot ''Profile Gold 55''"
  "isValidProfileScreenshot ''Profile Gold''"
  "isValidProfileScreenshot ''Profile Bronze 12''"
  "isValidProfileScreenshot ''Profile Platinum 85''"
  "isValidProfileScreenshot ''Profile''"
  by (simp_all add: cls_eval)

lemma menu_example: "\<not> isValidProfileScreenshot ''Play Special''"
  using special_rejected[of "[]" "[]"] by simp

lemma ex_images: "imageAttachments (submission ts) = map screenshot ts"
proof -
  have "filter (\<lambda>a. isImage (url_ext a) (contentType a)) (map screenshot ts) = map screenshot ts"
    by (induction ts) (simp_all add: screenshot_def img_eval)
  then show ?thesis by (simp add: imageAttachments_def submission_def)
qed

lemma ex_submission [simp]:
  "author_bot (submission ts) = False" "channel_id (submission ts) = RANK_CHANNEL_ID exampleEnv"
  "author_id (submission ts) = ''u1''" "author_username (submission ts) = ''player''"
  by (simp_all add: submission_def exampleEnv_def)

lemma ex_conf: "match_confidence (tierMatch t lv c) = c" "level_detected (tierMatch t lv c) = lv"
  by (simp_all add: tierMatch_def rankTier.extend_def)

lemma pi_gold55:
  "processImage exampleEnv (screenshot ''Profile Gold 55'') =
     \<lparr>success = True, rank = Some (tierMatch gold (Some 55) 90), level = Some 55,
      confidence = None, isProfile = None\<rparr>"
  using valid_examples(1) by (simp add: processImage_def ex_eval img_eval ex_conf)

lemma pi_gold:
  "processImage exampleEnv (screenshot ''Profile Gold'') =
     \<lparr>success = True, rank = Some (tierMatch gold None 60), level = None,
      confidence = None, isProfile = None\<rparr>"
  using valid_examples(2) by (simp add: processImage_def ex_eval img_eval ex_conf)

lemma pi_bronze:
  "processImage exampleEnv (screenshot ''Profile Bronze 12'') =
     \<lparr>success = True, rank = Some (tierMatch bronze (Some 12) 90), level = Some 12,
      confidence = None, isProfile = None\<rparr>"
  using valid_examples(3) by (simp add: processImage_def ex_eval img_eval ex_conf)

lemma pi_platinum:
  "processImage exampleEnv (screenshot ''Profile Platinum 85'') =
     \<lparr>success = True, rank = Some (tierMatch platinum (Some 85) 90), level = Some 85,
      confidence = None, isProfile = None\<rparr>"
  using valid_examples(4) by (simp add: processImage_def ex_eval img_eval ex_conf)

lemma pi_unreadable:
  "processImage exampleEnv (screenshot ''Profile'') = failure (Some True)"
  using valid_examples(5) by (simp add: processImage_def ex_eval img_eval ex_conf)

lemma pi_menu:
  "processImage exampleEnv (screenshot ''Play Special'') = failure (Some False)"
  using menu_example by (simp add: processImage_def ex_eval img_eval ex_conf)

lemmas pi_examples = pi_gold55 pi_gold pi_bronze pi_platinum pi_unreadable pi_menu

lemma ex_lookup:
  "getRankByName exampleEnv ''Gold'' = Some gold"
  "getRankByName exampleEnv ''Diamond'' = None"
  "members_fetch exampleEnv = Returned True" "getVerification_ok exampleEnv"
  "assignRankRole_ok exampleEnv" "upsertVerification_ok exampleEnv"
  by (simp_all add: exampleEnv_def lookupByName_def exampleRanks_def bronze_def gold_def platinum_def)

lemma ex_tiers:
  "level_min (tierMatch bronze lv c) = 10"
  "level_min (tierMatch gold lv c) = 50"
  "level_min (tierMatch platinum lv c) = 80"
  "level_min gold = 50"
  by (simp_all add: tierMatch_def bronze_def gold_def platinum_def rankTier.extend_def)

lemma ex_store: "storedAs n l ''u1'' = Some \<lparr>discord_id = ''u1'', username = ''player'', v_rank_name = n,
                 v_level_detected = l, role_id_assigned = ''r-old''\<rparr>"
  by (simp add: storedAs_def)

lemmas collect_eval = ex_images pi_examples Let_def failure_def ex_conf
lemmas best_eval = bestMatch_def pickBetter_def orZero_def

text \<open>
  C1. Once the best match of a submission is selected (no attachment was classified as not
  a profile screen, some attachment matched a rank) and the guild member and the stored
  record have been fetched: if a stored record exists whose rank name resolves to a rank
  with a strictly greater \<open>level_min\<close> than the best match, the handler only deletes the
  message (no role is assigned and the store is unchanged); in every other case, the role
  manager and the store answering, it accepts the best match: the role of the matched rank
  is assigned, the record with that rank and the detected level is upserted, the
  confirmation is sent and the message deleted.
\<close>

theorem reconcile_against_prior:
  assumes "\<not> author_bot m" "channel_id m = RANK_CHANNEL_ID e"
    and "filter (\<lambda>r. isProfile r = Some False) (collectResults e (imageAttachments m)) = []"
    and "list_ex (\<lambda>r. success r \<and> rank r \<noteq> None) (collectResults e (imageAttachments m))"
    and "bestMatch (collectResults e (imageAttachments m)) = Some best"
    and "rank best = Some matched"
    and "members_fetch e = Returned True" "getVerification_ok e"
  shows "((\<exists>prior t. store (author_id m) = Some prior
             \<and> getRankByName e (v_rank_name prior) = Some t
             \<and> level_min t > level_min matched)
          \<longrightarrow> handleMessageCreate e store m =
                \<lparr>outcome = RejectNoUpgrade, effects = [DeleteMessage], db_after = store\<rparr>)
       \<and> (\<not> (\<exists>prior t. store (author_id m) = Some prior
             \<and> getRankByName e (v_rank_name prior) = Some t
             \<and> level_min t > level_min matched)
          \<longrightarrow> assignRankRole_ok e \<longrightarrow> upsertVerification_ok e
          \<longrightarrow> handleMessageCreate e store m =
                \<lparr>outcome = Accept matched (levelDetected (level best) (level_min matched)),
                 effects =
                   [AssignRankRole (author_id m) (rankTier.truncate matched),
                    UpsertVerification
                      \<lparr>discord_id = author_id m, username = author_username m,
                       v_rank_name = rank_name matched,
                       v_level_detected = levelDetected (level best) (level_min matched),
                       role_id_assigned = role_id matched\<rparr>,
                    SendVerificationDM (author_id m) (rank_name matched) (level_min matched),
                    DeleteMessage],
                 db_after =
                   upsertVerification
                     \<lparr>discord_id = author_id m, username = author_username m,
                      v_rank_name = rank_name matched,
                      v_level_detected = levelDetected (level best) (level_min matched),
                      role_id_assigned = role_id matched\<rparr> store\<rparr>)"
proof -
  have h: "handleMessageCreate e store m =
           verifyBest e store m matched (levelDetected (level best) (level_min matched))"
    using assms(1-6) by (rule handle_reaches_best)
  show ?thesis
    unfolding h hasHigherRank_iff[symmetric]
    using assms(7,8) by (simp add: verifyBest_def Let_def)
qed

theorem reconcile_against_prior_witness:
  "handleMessageCreate exampleEnv (storedAs ''Gold'' 70) (submission [''Profile Bronze 12'']) =
     \<lparr>outcome = RejectNoUpgrade, effects = [DeleteMessage], db_after = storedAs ''Gold'' 70\<rparr>
   \<and> handleMessageCreate exampleEnv (storedAs ''Gold'' 70) (submission [''Profile Platinum 85'']) =
     \<lparr>outcome = Accept (tierMatch platinum (Some 85) 90) 85,
      effects =
        [AssignRankRole ''u1'' platinum,
         UpsertVerification
           \<lparr>discord_id = ''u1'', username = ''player'', v_rank_name = ''Platinum'',
            v_level_detected = 85, role_id_assigned = ''r-platinum''\<rparr>,
         SendVerificationDM ''u1'' ''Platinum'' 80,
         DeleteMessage],
      db_after =
        [''u1'' \<mapsto> \<lparr>discord_id = ''u1'', username = ''player'', v_rank_name = ''Platinum'',
                    v_level_detected = 85, role_id_assigned = ''r-platinum''\<rparr>]\<rparr>"
proof -
  let ?bronze = "\<lparr>success = True, rank = Some (tierMatch bronze (Some 12) 90),
                  level = Some 12, confidence = Some 90, isProfile = None\<rparr>"
  let ?platinum = "\<lparr>success = True, rank = Some (tierMatch platinum (Some 85) 90),
                  level = Some 85, confidence = Some 90, isProfile = None\<rparr>"
  have rb: "collectResults exampleEnv (imageAttachments (submission [''Profile Bronze 12''])) = [?bronze]"
    by (simp add: collect_eval)
  have rp: "collectResults exampleEnv (imageAttachments (submission [''Profile Platinum 85''])) = [?platinum]"
    by (simp add: collect_eval)
  have "\<exists>prior t. storedAs ''Gold'' 70 (author_id (submission [''Profile Bronze 12''])) = Some prior
          \<and> getRankByName exampleEnv (v_rank_name prior) = Some t
          \<and> level_min t > level_min (tierMatch bronze (Some 12) 90)"
    by (simp add: ex_store ex_lookup ex_tiers)
  with reconcile_against_prior[of "submission [''Profile Bronze 12'']" exampleEnv ?bronze
      "tierMatch bronze (Some 12) 90" "storedAs ''Gold'' 70"]
  have a: "handleMessageCreate exampleEnv (storedAs ''Gold'' 70) (submission [''Profile Bronze 12'']) =
     \<lparr>outcome = RejectNoUpgrade, effects = [DeleteMessage], db_after = storedAs ''Gold'' 70\<rparr>"
    by (simp add: rb best_eval ex_lookup)
  have "\<not> (\<exists>prior t. storedAs ''Gold'' 70 (author_id (submission [''Profile Platinum 85''])) = Some prior
          \<and> getRankByName exampleEnv (v_rank_name prior) = Some t
          \<and> level_min t > level_min (tierMatch platinum (Some 85) 90))"
    by (simp add: ex_store ex_lookup ex_tiers)
  with reconcile_against_prior[of "submission [''Profile Platinum 85'']" exampleEnv ?platinum
      "tierMatch platinum (Some 85) 90" "storedAs ''Gold'' 70"]
  have "handleMessageCreate exampleEnv (storedAs ''Gold'' 70) (submission [''Profile Platinum 85'']) =
     \<lparr>outcome = Accept (tierMatch platinum (Some 85) 90) 85,
      effects =
        [AssignRankRole ''u1'' (rankTier.truncate (tierMatch platinum (Some 85) 90)),
         UpsertVerification
           \<lparr>discord_id = ''u1'', username = ''player'',
            v_rank_name = rank_name (tierMatch platinum (Some 85) 90),
            v_level_detected = 85,
            role_id_assigned = role_id (tierMatch platinum (Some 85) 90)\<rparr>,
         SendVerificationDM ''u1'' (rank_name (tierMatch platinum (Some 85) 90)) 80,
         DeleteMessage],
      db_after =
        upsertVerification
           \<lparr>discord_id = ''u1'', username = ''player'',
            v_rank_name = rank_name (tierMatch platinum (Some 85) 90),
            v_level_detected = 85,
            role_id_assigned = role_id (tierMatch platinum (Some 85) 90)\<rparr>
           (storedAs ''Gold'' 70)\<rparr>"
    by (simp add: rp best_eval ex_lookup ex_tiers levelDetected_def)
  then have b: "handleMessageCreate exampleEnv (storedAs ''Gold'' 70) (submission [''Profile Platinum 85'']) =
     \<lparr>outcome = Accept (tierMatch platinum (Some 85) 90) 85,
      effects =
        [AssignRankRole ''u1'' platinum,
         UpsertVerification
           \<lparr>discord_id = ''u1'', username = ''player'', v_rank_name = ''Platinum'',
            v_level_detected = 85, role_id_assigned = ''r-platinum''\<rparr>,
         SendVerificationDM ''u1'' ''Platinum'' 80,
         DeleteMessage],
      db_after =
        [''u1'' \<mapsto> \<lparr>discord_id = ''u1'', username = ''player'', v_rank_name = ''Platinum'',
                    v_level_detected = 85, role_id_assigned = ''r-platinum''\<rparr>]\<rparr>"
    by (simp add: tierMatch_def platinum_def rankTier.extend_def rankTier.truncate_def
        upsertVerification_def storedAs_def)
  from a b show ?thesis by (rule conjI)
qed

lemma invalid_rejects:
  assumes "\<not> author_bot m" and "channel_id m = RANK_CHANNEL_ID e"
    and "a \<in> set (imageAttachments m)"
    and "isProfile (processImage e a) = Some False"
  shows "handleMessageCreate e store m =
           \<lparr>outcome = RejectInvalid,
            effects = [SendErrorDM (author_id m) InvalidFormat, DeleteMessage],
            db_after = store\<rparr>"
proof -
  from assms(3) have "imageAttachments m \<noteq> []" by auto
  moreover have "filter (\<lambda>r. isProfile r = Some False) (collectResults e (imageAttachments m)) \<noteq> []"
    using assms(3,4) by (rule collect_invalid)
  ultimately show ?thesis using assms(1,2)
    by (simp add: handleMessageCreate_def Let_def)
qed

text \<open>
  C3. If an attachment that the handler processes is classified as not a profile screen,
  the whole submission is rejected as invalid: the invalid-format notice is sent, the
  message is deleted, no role is assigned and the store is unchanged, whatever the other
  attachments of the same submission matched.
\<close>

theorem invalid_attachment_rejects_submission:
  assumes "\<not> author_bot m" and "channel_id m = RANK_CHANNEL_ID e"
    and "a \<in> set (imageAttachments m)"
    and "isProfile (processImage e a) = Some False"
  shows "handleMessageCreate e store m =
           \<lparr>outcome = RejectInvalid,
            effects = [SendErrorDM (author_id m) InvalidFormat, DeleteMessage],
            db_after = store\<rparr>"
  using assms by (rule invalid_rejects)

theorem invalid_attachment_rejects_submission_witness:
  "screenshot ''Play Special'' \<in> set (imageAttachments (submission [''Profile Platinum 85'', ''Play Special'']))
   \<and> isProfile (processImage exampleEnv (screenshot ''Play Special'')) = Some False
   \<and> rank (processImage exampleEnv (screenshot ''Profile Platinum 85'')) = Some (tierMatch platinum (Some 85) 90)
   \<and> handleMessageCreate exampleEnv Map.empty (submission [''Profile Platinum 85'', ''Play Special'']) =
        \<lparr>outcome = RejectInvalid, effects = [SendErrorDM ''u1'' InvalidFormat, DeleteMessage],
         db_after = Map.empty\<rparr>"
proof -
  have a: "screenshot ''Play Special'' \<in> set (imageAttachments (submission [''Profile Platinum 85'', ''Play Special'']))"
    by (simp add: ex_images)
  have b: "isProfile (processImage exampleEnv (screenshot ''Play Special'')) = Some False"
    by (simp add: pi_menu failure_def)
  have c: "rank (processImage exampleEnv (screenshot ''Profile Platinum 85'')) = Some (tierMatch platinum (Some 85) 90)"
    by (simp add: pi_platinum)
  have "handleMessageCreate exampleEnv Map.empty (submission [''Profile Platinum 85'', ''Play Special'']) =
        \<lparr>outcome = RejectInvalid,
         effects = [SendErrorDM (author_id (submission [''Profile Platinum 85'', ''Play Special''])) InvalidFormat, DeleteMessage],
         db_after = Map.empty\<rparr>"
    using a b by (intro invalid_attachment_rejects_submission) simp_all
  then show ?thesis using a b c by simp
qed

text \<open>
  C5. For a submission with at least one image attachment in which no
  attachment matched a rank: if no attachment was classified as not a profile screen
  (this covers the empty result set and submissions whose screens are all unreadable
  profile screens) the outcome is \<open>RejectUnreadable\<close>, with the unreadable notice and
  the message deleted; if some attachment was classified as not a profile screen the
  outcome is \<open>RejectInvalid\<close>, which is checked first. In both cases the submission is
  never accepted and the store is unchanged.
\<close>

theorem no_match_never_accepted:
  assumes "\<not> author_bot m" and "channel_id m = RANK_CHANNEL_ID e"
    and "imageAttachments m \<noteq> []"
    and "\<forall>a \<in> set (imageAttachments m). rank (processImage e a) = None"
  shows "((\<forall>a \<in> set (imageAttachments m). isProfile (processImage e a) \<noteq> Some False) \<longrightarrow>
            handleMessageCreate e store m =
              \<lparr>outcome = RejectUnreadable,
               effects = [SendErrorDM (author_id m) Unreadable, DeleteMessage],
               db_after = store\<rparr>)
       \<and> ((\<exists>a \<in> set (imageAttachments m). isProfile (processImage e a) = Some False) \<longrightarrow>
            outcome (handleMessageCreate e store m) = RejectInvalid)
       \<and> (\<forall>r l. outcome (handleMessageCreate e store m) \<noteq> Accept r l)
       \<and> db_after (handleMessageCreate e store m) = store"
proof -
  let ?rs = "collectResults e (imageAttachments m)"
  have nomatch: "\<not> list_ex (\<lambda>r. success r \<and> rank r \<noteq> None) ?rs"
    using assms(4) by (rule collect_no_match)
  have inv: "\<exists>a \<in> set (imageAttachments m). isProfile (processImage e a) = Some False \<Longrightarrow>
        handleMessageCreate e store m =
           \<lparr>outcome = RejectInvalid,
            effects = [SendErrorDM (author_id m) InvalidFormat, DeleteMessage],
            db_after = store\<rparr>"
    using assms(1,2) invalid_rejects by blast
  have unr: "\<forall>a \<in> set (imageAttachments m). isProfile (processImage e a) \<noteq> Some False \<Longrightarrow>
        handleMessageCreate e store m =
              \<lparr>outcome = RejectUnreadable,
               effects = [SendErrorDM (author_id m) Unreadable, DeleteMessage],
               db_after = store\<rparr>"
    using assms(1,2,3) nomatch collect_no_invalid[of "imageAttachments m" e]
    by (simp add: handleMessageCreate_def Let_def)
  show ?thesis
  proof (cases "\<exists>a \<in> set (imageAttachments m). isProfile (processImage e a) = Some False")
    case True
    with inv show ?thesis by auto
  next
    case False
    with unr show ?thesis by auto
  qed
qed

theorem no_match_never_accepted_witness:
  "imageAttachments (submission [''Profile'']) \<noteq> []
   \<and> rank (processImage exampleEnv (screenshot ''Profile'')) = None
   \<and> isProfile (processImage exampleEnv (screenshot ''Profile'')) = Some True
   \<and> handleMessageCreate exampleEnv (storedAs ''Gold'' 70) (submission [''Profile'']) =
        \<lparr>outcome = RejectUnreadable, effects = [SendErrorDM ''u1'' Unreadable, DeleteMessage],
         db_after = storedAs ''Gold'' 70\<rparr>"
proof -
  have a: "imageAttachments (submission [''Profile'']) \<noteq> []" by (simp add: ex_images)
  have b: "\<forall>a \<in> set (imageAttachments (submission [''Profile''])). rank (processImage exampleEnv a) = None"
    by (simp add: ex_images pi_unreadable failure_def)
  have c: "\<forall>a \<in> set (imageAttachments (submission [''Profile''])).
             isProfile (processImage exampleEnv a) \<noteq> Some False"
    by (simp add: ex_images pi_unreadable failure_def)
  from no_match_never_accepted[of "submission [''Profile'']" exampleEnv "storedAs ''Gold'' 70"] a b c
  have "handleMessageCreate exampleEnv (storedAs ''Gold'' 70) (submission [''Profile'']) =
        \<lparr>outcome = RejectUnreadable, effects = [SendErrorDM ''u1'' Unreadable, DeleteMessage],
         db_after = storedAs ''Gold'' 70\<rparr>"
    by simp
  then show ?thesis using a by (simp add: pi_unreadable failure_def)
qed

text \<open>
  Without the condition on non-profile screens the statement fails: on a submission whose
  only attachment is a main-menu screen no attachment matched a rank, and the outcome is
  \<open>RejectInvalid\<close>, not \<open>RejectUnreadable\<close>.
\<close>

theorem no_match_counterexample:
  "rank (processImage exampleEnv (screenshot ''Play Special'')) = None
   \<and> imageAttachments (submission [''Play Special'']) = [screenshot ''Play Special'']
   \<and> outcome (handleMessageCreate exampleEnv Map.empty (submission [''Play Special''])) = RejectInvalid
   \<and> outcome (handleMessageCreate exampleEnv Map.empty (submission [''Play Special''])) \<noteq> RejectUnreadable"
  by (simp add: handleMessageCreate_def collect_eval)

lemma verifyBest_accept:
  assumes "outcome (verifyBest e store m matched lvl) = Accept r l"
  shows "r = matched \<and> l = lvl
       \<and> \<not> hasHigherRank e (store (author_id m)) matched
       \<and> verifyBest e store m matched lvl =
           \<lparr>outcome = Accept matched lvl,
            effects = [AssignRankRole (author_id m) (rankTier.truncate matched),
                       UpsertVerification
                         \<lparr>discord_id = author_id m, username = author_username m,
                          v_rank_name = rank_name matched, v_level_detected = lvl,
                          role_id_assigned = role_id matched\<rparr>,
                       SendVerificationDM (author_id m) (rank_name matched) (level_min matched),
                       DeleteMessage],
            db_after = upsertVerification
                         \<lparr>discord_id = author_id m, username = author_username m,
                          v_rank_name = rank_name matched, v_level_detected = lvl,
                          role_id_assigned = role_id matched\<rparr> store\<rparr>"
  using assms
  by (auto simp: verifyBest_def caught_def Let_def split: attempt.splits bool.splits if_splits)

text \<open>The handler either enters the \<open>try\<close> block with the rank of the best entry, or
  ends without touching roles or store.\<close>

lemma handle_cases:
  "(\<exists>best matched.
       bestMatch (collectResults e (imageAttachments m)) = Some best
     \<and> rank best = Some matched
     \<and> handleMessageCreate e store m =
         verifyBest e store m matched (levelDetected (level best) (level_min matched)))
   \<or> (outcome (handleMessageCreate e store m) \<in>
         {Ignored, RejectInvalid, RejectUnreadable, UncaughtTypeError, NoRankOnBest}
       \<and> db_after (handleMessageCreate e store m) = store
       \<and> (\<forall>d. UpsertVerification d \<notin> set (effects (handleMessageCreate e store m)))
       \<and> (\<forall>u t. AssignRankRole u t \<notin> set (effects (handleMessageCreate e store m))))"
  by (auto simp: handleMessageCreate_def Let_def split: option.splits)

lemma upsert_existing:
  "store (discord_id d) = Some row \<Longrightarrow>
   upsertVerification d store =
     store(discord_id d \<mapsto> row\<lparr>username := username d, v_rank_name := v_rank_name d,
                v_level_detected := v_level_detected d, role_id_assigned := role_id_assigned d\<rparr>)"
  by (simp add: upsertVerification_def)

lemma upsert_level:
  "map_option v_level_detected (upsertVerification d store (discord_id d)) = Some (v_level_detected d)"
  by (simp add: upsertVerification_def split: option.splits)

lemmas handle_eval = handleMessageCreate_def collect_eval best_eval verifyBest_def
  hasHigherRank_def ex_lookup ex_store ex_tiers levelDetected_def

text \<open>
  C9. When a stored record exists but its \<open>rank_name\<close> resolves to no rank, the
  comparison with the stored rank is skipped: the guild member, the store and the role
  manager answering, the best match is accepted, the role is assigned and the stored
  record is overwritten, whatever \<open>level_min\<close> the newly detected rank has.
\<close>

theorem unresolved_prior_rank_accepts:
  assumes "\<not> author_bot m" and "channel_id m = RANK_CHANNEL_ID e"
    and "filter (\<lambda>r. isProfile r = Some False) (collectResults e (imageAttachments m)) = []"
    and "list_ex (\<lambda>r. success r \<and> rank r \<noteq> None) (collectResults e (imageAttachments m))"
    and "bestMatch (collectResults e (imageAttachments m)) = Some best"
    and "rank best = Some matched"
    and "members_fetch e = Returned True" and "getVerification_ok e"
    and "assignRankRole_ok e" and "upsertVerification_ok e"
    and "store (author_id m) = Some prior"
    and "getRankByName e (v_rank_name prior) = None"
  shows "handleMessageCreate e store m =
           \<lparr>outcome = Accept matched (levelDetected (level best) (level_min matched)),
            effects = [AssignRankRole (author_id m) (rankTier.truncate matched),
                       UpsertVerification
                         \<lparr>discord_id = author_id m, username = author_username m,
                          v_rank_name = rank_name matched,
                          v_level_detected = levelDetected (level best) (level_min matched),
                          role_id_assigned = role_id matched\<rparr>,
                       SendVerificationDM (author_id m) (rank_name matched) (level_min matched),
                       DeleteMessage],
            db_after = store(author_id m \<mapsto>
                         prior\<lparr>username := author_username m, v_rank_name := rank_name matched,
                               v_level_detected := levelDetected (level best) (level_min matched),
                               role_id_assigned := role_id matched\<rparr>)\<rparr>"
proof -
  have h: "handleMessageCreate e store m =
           verifyBest e store m matched (levelDetected (level best) (level_min matched))"
    using assms(1-6) by (rule handle_reaches_best)
  have "\<not> hasHigherRank e (store (author_id m)) matched"
    using assms(11,12) by (simp add: hasHigherRank_def)
  then show ?thesis
    unfolding h using assms(7-11)
    by (simp add: verifyBest_def Let_def upsert_existing)
qed

theorem unresolved_prior_rank_accepts_witness:
  "storedAs ''Diamond'' 150 ''u1'' =
     Some \<lparr>discord_id = ''u1'', username = ''player'', v_rank_name = ''Diamond'',
           v_level_detected = 150, role_id_assigned = ''r-old''\<rparr>
   \<and> getRankByName exampleEnv ''Diamond'' = None
   \<and> outcome (handleMessageCreate exampleEnv (storedAs ''Diamond'' 150)
        (submission [''Profile Bronze 12''])) = Accept (tierMatch bronze (Some 12) 90) 12
   \<and> db_after (handleMessageCreate exampleEnv (storedAs ''Diamond'' 150)
        (submission [''Profile Bronze 12''])) ''u1'' =
      Some \<lparr>discord_id = ''u1'', username = ''player'', v_rank_name = ''Bronze'',
            v_level_detected = 12, role_id_assigned = ''r-bronze''\<rparr>"
proof -
  let ?b = "\<lparr>success = True, rank = Some (tierMatch bronze (Some 12) 90),
             level = Some 12, confidence = Some 90, isProfile = None\<rparr>"
  have rb: "collectResults exampleEnv (imageAttachments (submission [''Profile Bronze 12''])) = [?b]"
    by (simp add: collect_eval)
  have "handleMessageCreate exampleEnv (storedAs ''Diamond'' 150) (submission [''Profile Bronze 12'']) =
      \<lparr>outcome = Accept (tierMatch bronze (Some 12) 90) 12,
       effects = [AssignRankRole ''u1'' (rankTier.truncate (tierMatch bronze (Some 12) 90)),
                  UpsertVerification
                    \<lparr>discord_id = ''u1'', username = ''player'',
                     v_rank_name = rank_name (tierMatch bronze (Some 12) 90),
                     v_level_detected = 12,
                     role_id_assigned = role_id (tierMatch bronze (Some 12) 90)\<rparr>,
                  SendVerificationDM ''u1'' (rank_name (tierMatch bronze (Some 12) 90)) 10,
                  DeleteMessage],
       db_after = (storedAs ''Diamond'' 150)(''u1'' \<mapsto>
                    \<lparr>discord_id = ''u1'', username = ''player'',
                     v_rank_name = rank_name (tierMatch bronze (Some 12) 90),
                     v_level_detected = 12,
                     role_id_assigned = role_id (tierMatch bronze (Some 12) 90)\<rparr>)\<rparr>"
    using unresolved_prior_rank_accepts[of "submission [''Profile Bronze 12'']" exampleEnv ?b
      "tierMatch bronze (Some 12) 90" "storedAs ''Diamond'' 150"
      "\<lparr>discord_id = ''u1'', username = ''player'', v_rank_name = ''Diamond'',
           v_level_detected = 150, role_id_assigned = ''r-old''\<rparr>"]
    by (simp add: rb best_eval ex_lookup ex_store ex_tiers levelDetected_def)
  then show ?thesis
    by (simp add: ex_store ex_lookup tierMatch_def bronze_def rankTier.extend_def)
qed

text \<open>
  C10. For an accepted submission whose best match carries no level (absent, or zero),
  the level reported and the \<open>level_detected\<close> written to the store are the
  \<open>level_min\<close> of the accepted rank.
\<close>

theorem missing_level_stored_as_level_min:
  assumes "outcome (handleMessageCreate e store m) = Accept matched lvl"
    and "bestMatch (collectResults e (imageAttachments m)) = Some best"
    and "level best = None \<or> level best = Some 0"
  shows "lvl = level_min matched
       \<and> map_option v_level_detected (db_after (handleMessageCreate e store m) (author_id m))
           = Some (level_min matched)"
proof -
  from handle_cases[of e m store] assms(1)
  have "\<exists>best' matched'. bestMatch (collectResults e (imageAttachments m)) = Some best'
    \<and> rank best' = Some matched'
    \<and> handleMessageCreate e store m =
         verifyBest e store m matched' (levelDetected (level best') (level_min matched'))"
    by auto
  then obtain best' matched' where b: "bestMatch (collectResults e (imageAttachments m)) = Some best'"
    and r: "rank best' = Some matched'"
    and h: "handleMessageCreate e store m =
         verifyBest e store m matched' (levelDetected (level best') (level_min matched'))"
    by blast
  from b assms(2) have [simp]: "best' = best" by simp
  let ?l = "levelDetected (level best) (level_min matched')"
  from assms(1) h have acc: "outcome (verifyBest e store m matched' ?l) = Accept matched lvl"
    by simp
  note inv = verifyBest_accept[OF acc]
  from inv have m: "matched = matched'" and l: "lvl = ?l" by simp_all
  from assms(3) have l0: "?l = level_min matched'" by (auto simp: levelDetected_def)
  let ?d = "\<lparr>discord_id = author_id m, username = author_username m,
             v_rank_name = rank_name matched', v_level_detected = ?l,
             role_id_assigned = role_id matched'\<rparr>"
  from inv h have "db_after (handleMessageCreate e store m) = upsertVerification ?d store"
    by simp
  then have "map_option v_level_detected (db_after (handleMessageCreate e store m) (author_id m))
               = Some ?l"
    using upsert_level[of ?d store] by simp
  with m l l0 show ?thesis by simp
qed

theorem missing_level_stored_as_level_min_witness:
  "outcome (handleMessageCreate exampleEnv Map.empty (submission [''Profile Gold''])) =
     Accept (tierMatch gold None 60) 50
   \<and> level_min (tierMatch gold None 60) = 50
   \<and> map_option v_level_detected
       (db_after (handleMessageCreate exampleEnv Map.empty (submission [''Profile Gold''])) ''u1'')
       = Some 50"
proof -
  let ?g = "\<lparr>success = True, rank = Some (tierMatch gold None 60),
             level = None, confidence = Some 60, isProfile = None\<rparr>"
  have rg: "collectResults exampleEnv (imageAttachments (submission [''Profile Gold''])) = [?g]"
    by (simp add: collect_eval)
  have acc: "outcome (handleMessageCreate exampleEnv Map.empty (submission [''Profile Gold''])) =
     Accept (tierMatch gold None 60) 50"
    by (simp add: handle_eval)
  have bm: "bestMatch (collectResults exampleEnv (imageAttachments (submission [''Profile Gold'']))) = Some ?g"
    by (simp add: rg best_eval)
  from missing_level_stored_as_level_min[OF acc bm] acc show ?thesis
    by (simp add: ex_tiers)
qed

subsection \<open>The record read and the record overwritten\<close>

lemma verifyBest_at:
  "verifyBest e store m matched lvl = verifyBestAt e (store (author_id m)) store m matched lvl"
  by (simp add: verifyBest_def verifyBestAt_def)

lemma handleMessageCreate_at:
  "handleMessageCreate e store m = handleMessageCreateAt e (store (author_id m)) store m"
  by (simp add: handleMessageCreate_def handleMessageCreateAt_def verifyBest_at Let_def
      split: option.splits)

lemma verifyBestAt_upsert:
  assumes "UpsertVerification d \<in> set (effects (verifyBestAt e seen store m matched lvl))"
  shows "\<not> hasHigherRank e seen matched
       \<and> d = \<lparr>discord_id = author_id m, username = author_username m,
              v_rank_name = rank_name matched, v_level_detected = lvl,
              role_id_assigned = role_id matched\<rparr>
       \<and> verifyBestAt e seen store m matched lvl =
           \<lparr>outcome = Accept matched lvl,
            effects = [AssignRankRole (author_id m) (rankTier.truncate matched),
                       UpsertVerification d,
                       SendVerificationDM (author_id m) (rank_name matched) (level_min matched),
                       DeleteMessage],
            db_after = upsertVerification d store\<rparr>"
  using assms
  by (auto simp: verifyBestAt_def caught_def Let_def split: attempt.splits bool.splits if_splits)

lemma handle_at_cases:
  "(\<exists>best matched.
       bestMatch (collectResults e (imageAttachments m)) = Some best
     \<and> rank best = Some matched
     \<and> handleMessageCreateAt e seen store m =
         verifyBestAt e seen store m matched (levelDetected (level best) (level_min matched)))
   \<or> (db_after (handleMessageCreateAt e seen store m) = store
       \<and> (\<forall>d. UpsertVerification d \<notin> set (effects (handleMessageCreateAt e seen store m))))"
  by (auto simp: handleMessageCreateAt_def Let_def split: option.splits)

text \<open>
  C2. The handler compares ranks, not levels, and it compares with the record it read.
  Whenever a run of the handler upserts and the record that \<open>getVerification\<close> returned
  to it has a rank name that resolves to a rank \<open>t\<close>, the submission was accepted with a
  rank whose \<open>level_min\<close> is at least that of \<open>t\<close>, and the upsert writes the row of the
  author with the name of that rank and the accepted level. If the row of the user was
  not written between the read and the upsert, the row overwritten is the row read. The
  stored \<open>level_detected\<close> is never compared with the new one.
\<close>

theorem upsert_not_below_rank_read:
  assumes "seen = Some old"
    and "getRankByName e (v_rank_name old) = Some t"
    and "UpsertVerification d \<in> set (effects (handleMessageCreateAt e seen store m))"
  shows "\<exists>matched lvl.
           outcome (handleMessageCreateAt e seen store m) = Accept matched lvl
         \<and> discord_id d = author_id m
         \<and> v_rank_name d = rank_name matched
         \<and> v_level_detected d = lvl
         \<and> level_min t \<le> level_min matched
         \<and> db_after (handleMessageCreateAt e seen store m) = upsertVerification d store
         \<and> (store (author_id m) = seen \<longrightarrow>
              db_after (handleMessageCreateAt e seen store m) (author_id m) =
                Some (old\<lparr>username := author_username m, v_rank_name := rank_name matched,
                          v_level_detected := lvl, role_id_assigned := role_id matched\<rparr>))"
proof -
  have "\<exists>(best :: result) matched. handleMessageCreateAt e seen store m =
         verifyBestAt e seen store m matched (levelDetected (level best) (level_min matched))"
  proof (rule disjE[OF handle_at_cases[of e m seen store]])
    assume "\<exists>best matched.
       bestMatch (collectResults e (imageAttachments m)) = Some best
     \<and> rank best = Some matched
     \<and> handleMessageCreateAt e seen store m =
         verifyBestAt e seen store m matched (levelDetected (level best) (level_min matched))"
    then show ?thesis by blast
  next
    assume "db_after (handleMessageCreateAt e seen store m) = store
       \<and> (\<forall>d. UpsertVerification d \<notin> set (effects (handleMessageCreateAt e seen store m)))"
    then have "UpsertVerification d \<notin> set (effects (handleMessageCreateAt e seen store m))"
      by (elim conjE) (erule allE)
    with assms(3) show ?thesis by (rule notE[rotated])
  qed
  then obtain best :: result and matched where
    h: "handleMessageCreateAt e seen store m =
         verifyBestAt e seen store m matched (levelDetected (level best) (level_min matched))"
    by blast
  let ?l = "levelDetected (level best) (level_min matched)"
  from assms(3) h
  have up: "UpsertVerification d \<in> set (effects (verifyBestAt e seen store m matched ?l))"
    by simp
  note inv = verifyBestAt_upsert[OF up]
  from inv have nh: "\<not> hasHigherRank e seen matched"
    and d: "d = \<lparr>discord_id = author_id m, username = author_username m,
              v_rank_name = rank_name matched, v_level_detected = ?l,
              role_id_assigned = role_id matched\<rparr>"
    and acc: "outcome (verifyBestAt e seen store m matched ?l) = Accept matched ?l"
    and db: "db_after (verifyBestAt e seen store m matched ?l) = upsertVerification d store"
    by simp_all
  from nh assms(1,2) have le: "level_min t \<le> level_min matched"
    by (simp add: hasHigherRank_def)
  have same: "db_after (verifyBestAt e seen store m matched ?l) (author_id m) =
        Some (old\<lparr>username := author_username m, v_rank_name := rank_name matched,
                  v_level_detected := ?l, role_id_assigned := role_id matched\<rparr>)"
    if "store (author_id m) = seen"
  proof -
    from that assms(1) have "store (discord_id d) = Some old" by (simp add: d)
    from upsert_existing[of store d old, OF this] show ?thesis unfolding db by (simp add: d)
  qed
  have "outcome (handleMessageCreateAt e seen store m) = Accept matched ?l
         \<and> discord_id d = author_id m
         \<and> v_rank_name d = rank_name matched
         \<and> v_level_detected d = ?l
         \<and> level_min t \<le> level_min matched
         \<and> db_after (handleMessageCreateAt e seen store m) = upsertVerification d store
         \<and> (store (author_id m) = seen \<longrightarrow>
              db_after (handleMessageCreateAt e seen store m) (author_id m) =
                Some (old\<lparr>username := author_username m, v_rank_name := rank_name matched,
                          v_level_detected := ?l, role_id_assigned := role_id matched\<rparr>))"
    unfolding h using acc db le same by (simp add: d)
  then show ?thesis by blast
qed

lemmas handle_at_eval = handleMessageCreateAt_def collect_eval best_eval verifyBestAt_def
  hasHigherRank_def ex_lookup ex_store ex_tiers levelDetected_def

theorem upsert_not_below_rank_read_witness:
  "storedAs ''Gold'' 70 ''u1'' =
     Some \<lparr>discord_id = ''u1'', username = ''player'', v_rank_name = ''Gold'',
           v_level_detected = 70, role_id_assigned = ''r-old''\<rparr>
   \<and> getRankByName exampleEnv ''Gold'' = Some gold
   \<and> outcome (handleMessageCreateAt exampleEnv (storedAs ''Gold'' 70 ''u1'') (storedAs ''Gold'' 70)
        (submission [''Profile Platinum 85''])) = Accept (tierMatch platinum (Some 85) 90) 85
   \<and> level_min gold \<le> level_min (tierMatch platinum (Some 85) 90)
   \<and> db_after (handleMessageCreateAt exampleEnv (storedAs ''Gold'' 70 ''u1'') (storedAs ''Gold'' 70)
        (submission [''Profile Platinum 85''])) ''u1'' =
      Some \<lparr>discord_id = ''u1'', username = ''player'', v_rank_name = ''Platinum'',
            v_level_detected = 85, role_id_assigned = ''r-platinum''\<rparr>"
proof -
  let ?old = "\<lparr>discord_id = ''u1'', username = ''player'', v_rank_name = ''Gold'',
           v_level_detected = 70, role_id_assigned = ''r-old''\<rparr>"
  let ?d = "\<lparr>discord_id = ''u1'', username = ''player'', v_rank_name = ''Platinum'',
           v_level_detected = 85, role_id_assigned = ''r-platinum''\<rparr>"
  let ?h = "handleMessageCreateAt exampleEnv (storedAs ''Gold'' 70 ''u1'') (storedAs ''Gold'' 70)
        (submission [''Profile Platinum 85''])"
  have s: "storedAs ''Gold'' 70 ''u1'' = Some ?old" by (simp add: ex_store)
  have g: "getRankByName exampleEnv (v_rank_name ?old) = Some gold" by (simp add: ex_lookup)
  have acc: "outcome ?h = Accept (tierMatch platinum (Some 85) 90) 85"
    by (simp add: handle_at_eval)
  have u: "UpsertVerification ?d \<in> set (effects ?h)"
    by (simp add: handle_at_eval tierMatch_def platinum_def rankTier.extend_def)
  have same: "storedAs ''Gold'' 70 (author_id (submission [''Profile Platinum 85''])) = storedAs ''Gold'' 70 ''u1''"
    by simp
  from upsert_not_below_rank_read[OF s g u] acc same
  have "level_min gold \<le> level_min (tierMatch platinum (Some 85) 90)
      \<and> db_after ?h ''u1'' =
          Some (?old\<lparr>username := ''player'',
                     v_rank_name := rank_name (tierMatch platinum (Some 85) 90),
                     v_level_detected := 85,
                     role_id_assigned := role_id (tierMatch platinum (Some 85) 90)\<rparr>)"
    by auto
  then have "level_min gold \<le> level_min (tierMatch platinum (Some 85) 90)
      \<and> db_after ?h ''u1'' = Some ?d"
    by (simp add: tierMatch_def platinum_def rankTier.extend_def)
  with s g acc show ?thesis by (simp add: ex_store ex_lookup)
qed

text \<open>
  The stored \<open>level_detected\<close> can decrease. Within one rank: a stored Gold record with
  level 70 is overwritten by a Gold match with level 55. Across ranks, when the row was
  written after the handler read it: a handler that found no record upserts its Bronze match
  with level 12 over a Platinum row with level 85.
\<close>

theorem level_detected_decreases_counterexample:
  "map_option v_level_detected (storedAs ''Gold'' 70 ''u1'') = Some 70
   \<and> outcome (handleMessageCreate exampleEnv (storedAs ''Gold'' 70)
        (submission [''Profile Gold 55''])) = Accept (tierMatch gold (Some 55) 90) 55
   \<and> map_option v_level_detected
        (db_after (handleMessageCreate exampleEnv (storedAs ''Gold'' 70)
           (submission [''Profile Gold 55''])) ''u1'') = Some 55
   \<and> \<not> (70 \<le> (55 :: int))
   \<and> map_option v_level_detected (storedAs ''Platinum'' 85 ''u1'') = Some 85
   \<and> outcome (handleMessageCreateAt exampleEnv None (storedAs ''Platinum'' 85)
        (submission [''Profile Bronze 12''])) = Accept (tierMatch bronze (Some 12) 90) 12
   \<and> db_after (handleMessageCreateAt exampleEnv None (storedAs ''Platinum'' 85)
        (submission [''Profile Bronze 12''])) ''u1'' =
      Some \<lparr>discord_id = ''u1'', username = ''player'', v_rank_name = ''Bronze'',
            v_level_detected = 12, role_id_assigned = ''r-bronze''\<rparr>
   \<and> \<not> (85 \<le> (12 :: int))"
proof -
  have within: "map_option v_level_detected (storedAs ''Gold'' 70 ''u1'') = Some 70
   \<and> outcome (handleMessageCreate exampleEnv (storedAs ''Gold'' 70)
        (submission [''Profile Gold 55''])) = Accept (tierMatch gold (Some 55) 90) 55
   \<and> map_option v_level_detected
        (db_after (handleMessageCreate exampleEnv (storedAs ''Gold'' 70)
           (submission [''Profile Gold 55''])) ''u1'') = Some 55
   \<and> \<not> (70 \<le> (55 :: int))"
    by (simp add: handle_eval upsertVerification_def)
  have across: "map_option v_level_detected (storedAs ''Platinum'' 85 ''u1'') = Some 85
   \<and> outcome (handleMessageCreateAt exampleEnv None (storedAs ''Platinum'' 85)
        (submission [''Profile Bronze 12''])) = Accept (tierMatch bronze (Some 12) 90) 12
   \<and> db_after (handleMessageCreateAt exampleEnv None (storedAs ''Platinum'' 85)
        (submission [''Profile Bronze 12''])) ''u1'' =
      Some \<lparr>discord_id = ''u1'', username = ''player'', v_rank_name = ''Bronze'',
            v_level_detected = 12, role_id_assigned = ''r-bronze''\<rparr>
   \<and> \<not> (85 \<le> (12 :: int))"
    by (simp add: handle_at_eval upsertVerification_def storedAs_def tierMatch_def
        bronze_def rankTier.extend_def)
  from within across show ?thesis by simp
qed

subsection \<open>Best-match selection\<close>

lemma foldl_pickBetter_first_max:
  assumes "0 \<le> orZero (confidence b)"
    and "\<forall>x \<in> set xs. \<exists>c. confidence x = Some c \<and> 0 \<le> c"
  shows "(foldl pickBetter b xs = b \<and> (\<forall>x \<in> set xs. orZero (confidence x) \<le> orZero (confidence b)))
       \<or> (\<exists>i < length xs. foldl pickBetter b xs = xs ! i
            \<and> orZero (confidence b) < orZero (confidence (xs ! i))
            \<and> (\<forall>j < i. orZero (confidence (xs ! j)) < orZero (confidence (xs ! i)))
            \<and> (\<forall>x \<in> set xs. orZero (confidence x) \<le> orZero (confidence (xs ! i))))"
  using assms
proof (induction xs arbitrary: b)
  case Nil
  then show ?case by simp
next
  case (Cons x xs)
  from Cons.prems(2) obtain c where c: "confidence x = Some c" "0 \<le> c" by auto
  then have ox: "orZero (confidence x) = c" by (simp add: orZero_def)
  have rest: "\<forall>y \<in> set xs. \<exists>c. confidence y = Some c \<and> 0 \<le> c" using Cons.prems(2) by simp
  show ?case
  proof (cases "orZero (confidence b) < c")
    case True
    then have pk: "pickBetter b x = x" using c Cons.prems(1) by (auto simp: pickBetter_def)
    have "0 \<le> orZero (confidence x)" using ox c by simp
    from Cons.IH[OF this rest]
    show ?thesis
    proof
      assume a: "foldl pickBetter x xs = x \<and> (\<forall>y \<in> set xs. orZero (confidence y) \<le> orZero (confidence x))"
      have "0 < length (x # xs) \<and> foldl pickBetter b (x # xs) = (x # xs) ! 0
            \<and> orZero (confidence b) < orZero (confidence ((x # xs) ! 0))
            \<and> (\<forall>j < 0. orZero (confidence ((x # xs) ! j)) < orZero (confidence ((x # xs) ! 0)))
            \<and> (\<forall>y \<in> set (x # xs). orZero (confidence y) \<le> orZero (confidence ((x # xs) ! 0)))"
        using a pk True ox by simp
      then show ?thesis by blast
    next
      assume "\<exists>i < length xs. foldl pickBetter x xs = xs ! i
            \<and> orZero (confidence x) < orZero (confidence (xs ! i))
            \<and> (\<forall>j < i. orZero (confidence (xs ! j)) < orZero (confidence (xs ! i)))
            \<and> (\<forall>y \<in> set xs. orZero (confidence y) \<le> orZero (confidence (xs ! i)))"
      then obtain i where i: "i < length xs" "foldl pickBetter x xs = xs ! i"
        "orZero (confidence x) < orZero (confidence (xs ! i))"
        "\<forall>j < i. orZero (confidence (xs ! j)) < orZero (confidence (xs ! i))"
        "\<forall>y \<in> set xs. orZero (confidence y) \<le> orZero (confidence (xs ! i))"
        by blast
      have "Suc i < length (x # xs) \<and> foldl pickBetter b (x # xs) = (x # xs) ! Suc i
            \<and> orZero (confidence b) < orZero (confidence ((x # xs) ! Suc i))
            \<and> (\<forall>j < Suc i. orZero (confidence ((x # xs) ! j)) < orZero (confidence ((x # xs) ! Suc i)))
            \<and> (\<forall>y \<in> set (x # xs). orZero (confidence y) \<le> orZero (confidence ((x # xs) ! Suc i)))"
        using i pk True ox by (auto simp: less_Suc_eq_0_disj)
      then show ?thesis by blast
    qed
  next
    case False
    then have pk: "pickBetter b x = b" using c by (auto simp: pickBetter_def)
    from False ox have xb: "orZero (confidence x) \<le> orZero (confidence b)" by simp
    from Cons.IH[OF Cons.prems(1) rest]
    show ?thesis
    proof
      assume "foldl pickBetter b xs = b \<and> (\<forall>y \<in> set xs. orZero (confidence y) \<le> orZero (confidence b))"
      then show ?thesis using pk xb by simp
    next
      assume "\<exists>i < length xs. foldl pickBetter b xs = xs ! i
            \<and> orZero (confidence b) < orZero (confidence (xs ! i))
            \<and> (\<forall>j < i. orZero (confidence (xs ! j)) < orZero (confidence (xs ! i)))
            \<and> (\<forall>y \<in> set xs. orZero (confidence y) \<le> orZero (confidence (xs ! i)))"
      then obtain i where i: "i < length xs" "foldl pickBetter b xs = xs ! i"
        "orZero (confidence b) < orZero (confidence (xs ! i))"
        "\<forall>j < i. orZero (confidence (xs ! j)) < orZero (confidence (xs ! i))"
        "\<forall>y \<in> set xs. orZero (confidence y) \<le> orZero (confidence (xs ! i))"
        by blast
      have "Suc i < length (x # xs) \<and> foldl pickBetter b (x # xs) = (x # xs) ! Suc i
            \<and> orZero (confidence b) < orZero (confidence ((x # xs) ! Suc i))
            \<and> (\<forall>j < Suc i. orZero (confidence ((x # xs) ! j)) < orZero (confidence ((x # xs) ! Suc i)))
            \<and> (\<forall>y \<in> set (x # xs). orZero (confidence y) \<le> orZero (confidence ((x # xs) ! Suc i)))"
        using i pk xb by (auto simp: less_Suc_eq_0_disj)
      then show ?thesis by blast
    qed
  qed
qed

text \<open>
  C6. For a non-empty list of result entries that carry a confidence in the range of the
  data model (not negative), the reduce returns an entry of the list whose confidence is
  maximal, and every entry before it has a strictly smaller confidence: among entries of
  maximal confidence the first one wins.
\<close>

theorem best_match_first_maximal:
  assumes "results \<noteq> []"
    and "\<forall>r \<in> set results. \<exists>c. confidence r = Some c \<and> 0 \<le> c"
  shows "\<exists>i < length results.
           bestMatch results = Some (results ! i)
         \<and> (\<forall>j < length results. the (confidence (results ! j)) \<le> the (confidence (results ! i)))
         \<and> (\<forall>j < i. the (confidence (results ! j)) < the (confidence (results ! i)))"
proof -
  from assms(1) obtain x xs where rs: "results = x # xs" by (cases results) auto
  have oz: "\<And>r. r \<in> set results \<Longrightarrow> orZero (confidence r) = the (confidence r)"
    using assms(2) by (auto simp: orZero_def)
  have x0: "0 \<le> orZero (confidence x)" using assms(2) rs by (auto simp: orZero_def)
  have rest: "\<forall>y \<in> set xs. \<exists>c. confidence y = Some c \<and> 0 \<le> c" using assms(2) rs by simp
  have bm: "bestMatch results = Some (foldl pickBetter x xs)" by (simp add: rs bestMatch_def)
  from foldl_pickBetter_first_max[OF x0 rest]
  show ?thesis
  proof
    assume a: "foldl pickBetter x xs = x \<and> (\<forall>y \<in> set xs. orZero (confidence y) \<le> orZero (confidence x))"
    have "\<forall>j < length results. orZero (confidence (results ! j)) \<le> orZero (confidence (results ! 0))"
      using a rs by (auto simp: less_Suc_eq_0_disj)
    then have "\<forall>j < length results. the (confidence (results ! j)) \<le> the (confidence (results ! 0))"
      using oz rs by (metis length_greater_0_conv list.discI nth_mem)
    then have "0 < length results \<and> bestMatch results = Some (results ! 0)
         \<and> (\<forall>j < length results. the (confidence (results ! j)) \<le> the (confidence (results ! 0)))
         \<and> (\<forall>j < 0. the (confidence (results ! j)) < the (confidence (results ! 0)))"
      using a bm rs by simp
    then show ?thesis by blast
  next
    assume "\<exists>i < length xs. foldl pickBetter x xs = xs ! i
            \<and> orZero (confidence x) < orZero (confidence (xs ! i))
            \<and> (\<forall>j < i. orZero (confidence (xs ! j)) < orZero (confidence (xs ! i)))
            \<and> (\<forall>y \<in> set xs. orZero (confidence y) \<le> orZero (confidence (xs ! i)))"
    then obtain i where i: "i < length xs" "foldl pickBetter x xs = xs ! i"
        "orZero (confidence x) < orZero (confidence (xs ! i))"
        "\<forall>j < i. orZero (confidence (xs ! j)) < orZero (confidence (xs ! i))"
        "\<forall>y \<in> set xs. orZero (confidence y) \<le> orZero (confidence (xs ! i))"
      by blast
    have si: "Suc i < length results" and ri: "results ! Suc i = xs ! i" using i(1) rs by simp_all
    have le: "\<forall>j < length results. orZero (confidence (results ! j)) \<le> orZero (confidence (results ! Suc i))"
      using i rs by (auto simp: less_Suc_eq_0_disj)
    have lt: "\<forall>j < Suc i. orZero (confidence (results ! j)) < orZero (confidence (results ! Suc i))"
      using i rs by (auto simp: less_Suc_eq_0_disj)
    have conv: "\<And>j. j < length results \<Longrightarrow> orZero (confidence (results ! j)) = the (confidence (results ! j))"
      using oz by simp
    have le': "\<forall>j < length results. the (confidence (results ! j)) \<le> the (confidence (results ! Suc i))"
      using le conv si by simp
    have lt': "\<forall>j < Suc i. the (confidence (results ! j)) < the (confidence (results ! Suc i))"
    proof (intro allI impI)
      fix j assume "j < Suc i"
      then have "j < length results" using si by simp
      with lt \<open>j < Suc i\<close> conv si show "the (confidence (results ! j)) < the (confidence (results ! Suc i))"
        by simp
    qed
    have "Suc i < length results \<and> bestMatch results = Some (results ! Suc i)
         \<and> (\<forall>j < length results. the (confidence (results ! j)) \<le> the (confidence (results ! Suc i)))
         \<and> (\<forall>j < Suc i. the (confidence (results ! j)) < the (confidence (results ! Suc i)))"
      using si bm i(2) ri le' lt' by simp
    then show ?thesis by blast
  qed
qed

theorem best_match_first_maximal_witness:
  "[entry gold None 60, entry gold (Some 55) 90, entry platinum (Some 85) 90] \<noteq> []
   \<and> bestMatch [entry gold None 60, entry gold (Some 55) 90, entry platinum (Some 85) 90]
       = Some (entry gold (Some 55) 90)
   \<and> bestMatch [entry gold None 60, entry gold (Some 55) 90, entry platinum (Some 85) 90]
       \<noteq> Some (entry platinum (Some 85) 90)"
proof -
  let ?rs = "[entry gold None 60, entry gold (Some 55) 90, entry platinum (Some 85) 90]"
  have ne: "?rs \<noteq> []" by simp
  have rng: "\<forall>r \<in> set ?rs. \<exists>c. confidence r = Some c \<and> 0 \<le> c" by (simp add: entry_def)
  from best_match_first_maximal[OF ne rng]
  obtain i where i: "i < length ?rs" "bestMatch ?rs = Some (?rs ! i)"
    "\<forall>j < length ?rs. the (confidence (?rs ! j)) \<le> the (confidence (?rs ! i))"
    "\<forall>j < i. the (confidence (?rs ! j)) < the (confidence (?rs ! i))"
    by blast
  from i(1) have "i = 0 \<or> i = 1 \<or> i = 2" by auto
  moreover have "i \<noteq> 0"
  proof
    assume "i = 0"
    with i(3)[rule_format, of 1] show False by (simp add: entry_def)
  qed
  moreover have "i \<noteq> 2"
  proof
    assume "i = 2"
    with i(4)[rule_format, of 1] show False by (simp add: entry_def)
  qed
  ultimately have "i = 1" by blast
  with i(2) have "bestMatch ?rs = Some (entry gold (Some 55) 90)" by simp
  moreover have "entry gold (Some 55) 90 \<noteq> entry platinum (Some 85) 90" by (simp add: entry_def)
  ultimately show ?thesis by simp
qed

section \<open>Properties of the DM cleanup service\<close>

subsection \<open>The operations, handle by handle\<close>

lemma registered_clears:
  assumes "registered h s" and "map_of (scheduledDeletions s) h = Some e"
  shows "filter (\<lambda>x. captured x = h) (clearTimeout (timeout e) (timers s)) = []"
  using assms
  by (auto simp: registered_def pendingFor_def clearTimeout_def list_all_iff filter_empty_conv)

lemma registered_none:
  assumes "registered h s" and "map_of (scheduledDeletions s) h = None"
  shows "pendingFor h s = []"
  using assms by (cases "pendingFor h s") (auto simp: registered_def)

lemma cancel_same:
  assumes "registered h s"
  shows "pendingFor h (cancelDeletion h s) = []"
    and "map_of (scheduledDeletions (cancelDeletion h s)) h = None"
    and "awaiting (cancelDeletion h s) = awaiting s"
    and "deleteCalls (cancelDeletion h s) = deleteCalls s"
    and "clock (cancelDeletion h s) = clock s"
    and "nextTimer (cancelDeletion h s) = nextTimer s"
  using assms registered_none[of h s] registered_clears[of h s]
  by (auto simp: cancelDeletion_def pendingFor_def AList.delete_conv' split: option.splits)

lemma cancel_other:
  assumes "k \<noteq> h"
  shows "map_of (scheduledDeletions (cancelDeletion k s)) h = map_of (scheduledDeletions s) h"
    and "set (pendingFor h (cancelDeletion k s)) \<subseteq> set (pendingFor h s)"
    and "awaiting (cancelDeletion k s) = awaiting s"
    and "deleteCalls (cancelDeletion k s) = deleteCalls s"
  using assms
  by (auto simp: cancelDeletion_def pendingFor_def clearTimeout_def split: option.splits)

lemma cancel_pending_filter:
  "\<exists>P. pendingFor h (cancelDeletion k s) = filter P (pendingFor h s)"
proof (cases "map_of (scheduledDeletions s) k")
  case None
  then have "pendingFor h (cancelDeletion k s) = filter (\<lambda>_. True) (pendingFor h s)"
    by (simp add: cancelDeletion_def)
  then show ?thesis by blast
next
  case (Some e)
  then have "pendingFor h (cancelDeletion k s) = filter (\<lambda>x. timer_id x \<noteq> timeout e) (pendingFor h s)"
    by (simp add: cancelDeletion_def pendingFor_def clearTimeout_def)
      metis
  then show ?thesis by blast
qed

lemma schedule_same:
  assumes "registered h s" and "isDMBased m" and "msg_id m = h"
  shows "pendingFor h (scheduleDeletion m s) =
           [\<lparr>timer_id = nextTimer s, captured = h, fires_at = clock s + DELETE_AFTER_MS\<rparr>]"
    and "map_option timeout (map_of (scheduledDeletions (scheduleDeletion m s)) h) = Some (nextTimer s)"
    and "awaiting (scheduleDeletion m s) = awaiting s"
    and "deleteCalls (scheduleDeletion m s) = deleteCalls s"
    and "clock (scheduleDeletion m s) = clock s"
    and "nextTimer (scheduleDeletion m s) = Suc (nextTimer s)"
proof -
  let ?c = "cancelDeletion h s"
  note c = cancel_same[OF assms(1)]
  have p: "filter (\<lambda>x. captured x = h) (timers ?c) = []" using c(1) by (simp add: pendingFor_def)
  show "pendingFor h (scheduleDeletion m s) =
           [\<lparr>timer_id = nextTimer s, captured = h, fires_at = clock s + DELETE_AFTER_MS\<rparr>]"
    using assms(2,3) p c(5,6) by (simp add: scheduleDeletion_def Let_def pendingFor_def)
  show "map_option timeout (map_of (scheduledDeletions (scheduleDeletion m s)) h) = Some (nextTimer s)"
    using assms(2,3) c(6) by (simp add: scheduleDeletion_def Let_def AList.update_conv')
  show "awaiting (scheduleDeletion m s) = awaiting s"
    using assms(2,3) c(3) by (simp add: scheduleDeletion_def Let_def)
  show "deleteCalls (scheduleDeletion m s) = deleteCalls s"
    using assms(2,3) c(4) by (simp add: scheduleDeletion_def Let_def)
  show "clock (scheduleDeletion m s) = clock s"
    using assms(2,3) c(5) by (simp add: scheduleDeletion_def Let_def)
  show "nextTimer (scheduleDeletion m s) = Suc (nextTimer s)"
    using assms(2,3) c(6) by (simp add: scheduleDeletion_def Let_def)
qed

lemma schedule_other:
  assumes "\<not> (isDMBased m \<and> msg_id m = h)"
  shows "map_of (scheduledDeletions (scheduleDeletion m s)) h = map_of (scheduledDeletions s) h"
    and "\<exists>P. pendingFor h (scheduleDeletion m s) = filter P (pendingFor h s)"
    and "awaiting (scheduleDeletion m s) = awaiting s"
    and "deleteCalls (scheduleDeletion m s) = deleteCalls s"
proof -
  show "map_of (scheduledDeletions (scheduleDeletion m s)) h = map_of (scheduledDeletions s) h"
    using assms cancel_other(1)[of "msg_id m" h s]
    by (auto simp: scheduleDeletion_def Let_def AList.update_conv')
  show "\<exists>P. pendingFor h (scheduleDeletion m s) = filter P (pendingFor h s)"
  proof (cases "isDMBased m")
    case False
    then have "pendingFor h (scheduleDeletion m s) = filter (\<lambda>_. True) (pendingFor h s)"
      by (simp add: scheduleDeletion_def)
    then show ?thesis by blast
  next
    case True
    with assms have ne: "msg_id m \<noteq> h" by simp
    from cancel_pending_filter[of h "msg_id m" s] obtain P where
      P: "pendingFor h (cancelDeletion (msg_id m) s) = filter P (pendingFor h s)" by blast
    have "pendingFor h (scheduleDeletion m s) = pendingFor h (cancelDeletion (msg_id m) s)"
      using True ne by (simp add: scheduleDeletion_def Let_def pendingFor_def)
    with P show ?thesis by auto
  qed
  show "awaiting (scheduleDeletion m s) = awaiting s"
    by (auto simp: scheduleDeletion_def Let_def cancelDeletion_def split: option.splits)
  show "deleteCalls (scheduleDeletion m s) = deleteCalls s"
    by (auto simp: scheduleDeletion_def Let_def cancelDeletion_def split: option.splits)
qed

lemma registered_filter:
  assumes "registered h s"
    and "pendingFor h s' = filter P (pendingFor h s)"
    and "map_of (scheduledDeletions s') h = map_of (scheduledDeletions s) h"
  shows "registered h s'"
  using assms by (simp add: registered_def list_all_iff)

lemma registered_empty: "pendingFor h s = [] \<Longrightarrow> registered h s"
  by (simp add: registered_def)

lemma fires_same:
  assumes "registered h s" and "find (\<lambda>x. timer_id x = t) (timers s) = Some x"
    and "captured x = h"
  shows "filter (\<lambda>y. captured y = h) (clearTimeout t (timers s)) = []"
proof -
  from assms(2) have xin: "x \<in> set (timers s)" and xt: "timer_id x = t"
    by (auto simp: find_Some_iff)
  with assms(3) have "x \<in> set (pendingFor h s)" by (simp add: pendingFor_def)
  with assms(1) have reg: "map_option timeout (map_of (scheduledDeletions s) h) = Some t"
    using xt by (auto simp: registered_def list_all_iff)
  with assms(1) have "\<forall>y \<in> set (pendingFor h s). timer_id y = t"
    by (auto simp: registered_def list_all_iff)
  then show ?thesis
    by (auto simp: pendingFor_def clearTimeout_def filter_empty_conv)
qed

lemma fires_pending_filter:
  "\<exists>P. pendingFor h (timerFires t s) = filter P (pendingFor h s)"
proof (cases "timers (timerFires t s) = timers s")
  case True
  then have "pendingFor h (timerFires t s) = filter (\<lambda>_. True) (pendingFor h s)"
    by (simp add: pendingFor_def)
  then show ?thesis by blast
next
  case False
  then have "timers (timerFires t s) = clearTimeout t (timers s)"
    by (auto simp: timerFires_def split: option.splits if_splits)
  then have "pendingFor h (timerFires t s) = filter (\<lambda>x. timer_id x \<noteq> t) (pendingFor h s)"
    by (simp add: pendingFor_def clearTimeout_def) metis
  then show ?thesis by blast
qed

lemma fires_registry: "scheduledDeletions (timerFires t s) = scheduledDeletions s"
  by (auto simp: timerFires_def split: option.splits)

lemma cleanup_clears:
  "(k, e) \<in> set reg \<Longrightarrow> timer_id x = timeout e \<Longrightarrow>
   x \<notin> set (foldr (\<lambda>(_, scheduled). clearTimeout (timeout scheduled)) reg ts)"
  by (induction reg) (auto simp: clearTimeout_def)

lemma cleanup_subset:
  "set (foldr (\<lambda>(_, scheduled). clearTimeout (timeout scheduled)) reg ts) \<subseteq> set ts"
  by (induction reg) (auto simp: clearTimeout_def)

lemma cleanup_filter:
  "\<exists>P. foldr (\<lambda>(_, scheduled). clearTimeout (timeout scheduled)) reg ts = filter P ts"
proof (induction reg)
  case Nil
  have "foldr (\<lambda>(_, scheduled). clearTimeout (timeout scheduled)) [] ts = filter (\<lambda>_. True) ts" by simp
  then show ?case by blast
next
  case (Cons a reg)
  then obtain P where "foldr (\<lambda>(_, scheduled). clearTimeout (timeout scheduled)) reg ts = filter P ts"
    by blast
  then have "foldr (\<lambda>(_, scheduled). clearTimeout (timeout scheduled)) (a # reg) ts
             = filter (\<lambda>x. timer_id x \<noteq> timeout (snd a) \<and> P x) ts"
    by (cases a) (simp add: clearTimeout_def conj_commute)
  then show ?case by blast
qed

lemma cleanup_same:
  assumes "registered h s"
  shows "pendingFor h (cleanup s) = []"
proof -
  have "\<forall>x \<in> set (timers (cleanup s)). captured x \<noteq> h"
  proof
    fix x assume x: "x \<in> set (timers (cleanup s))"
    show "captured x \<noteq> h"
    proof
      assume h: "captured x = h"
      from x have "x \<in> set (timers s)" using cleanup_subset by (auto simp: cleanup_def)
      with h have "x \<in> set (pendingFor h s)" by (simp add: pendingFor_def)
      with assms obtain e where e: "map_of (scheduledDeletions s) h = Some e" "timeout e = timer_id x"
        by (auto simp: registered_def list_all_iff)
      then have "(h, e) \<in> set (scheduledDeletions s)" by (simp add: map_of_SomeD)
      from cleanup_clears[OF this, of x "timers s"] e(2) x show False
        by (simp add: cleanup_def)
    qed
  qed
  then show ?thesis by (simp add: pendingFor_def filter_empty_conv)
qed

lemma awaitingFor_cong: "awaiting s' = awaiting s \<Longrightarrow> awaitingFor h s' = awaitingFor h s"
  by (simp add: awaitingFor_def)

lemma tracked_filter:
  assumes "tracked h s"
    and "pendingFor h s' = filter P (pendingFor h s)"
    and "map_of (scheduledDeletions s') h = map_of (scheduledDeletions s) h"
    and "awaitingFor h s' = awaitingFor h s"
  shows "tracked h s'"
  using assms registered_filter[of h s s' P] by (auto simp: tracked_def)

lemma tracked_schedule:
  assumes "tracked h s" and "schedules h (ScheduleDeletion m) \<longrightarrow> awaitingFor h s = []"
  shows "tracked h (scheduleDeletion m s)"
proof (cases "isDMBased m \<and> msg_id m = h")
  case True
  with assms(2) have aw: "awaitingFor h s = []" by simp
  from assms(1) have reg: "registered h s" by (simp add: tracked_def)
  note sc = schedule_same[OF reg, of m] 
  from True sc(1,2) have "registered h (scheduleDeletion m s)"
    by (simp add: registered_def)
  moreover from True sc(3) aw have "awaitingFor h (scheduleDeletion m s) = []"
    by (simp add: awaitingFor_def)
  ultimately show ?thesis by (simp add: tracked_def)
next
  case False
  note so = schedule_other[OF False, of s]
  from so(2) obtain P where P: "pendingFor h (scheduleDeletion m s) = filter P (pendingFor h s)" by blast
  show ?thesis by (rule tracked_filter[OF assms(1) P so(1) awaitingFor_cong[OF so(3)]])
qed

lemma tracked_cancel:
  assumes "tracked h s"
  shows "tracked h (cancelDeletion k s)"
proof (cases "k = h")
  case True
  from assms have "registered h s" by (simp add: tracked_def)
  from cancel_same(1)[OF this] True show ?thesis
    by (simp add: tracked_def registered_empty)
next
  case False
  from cancel_pending_filter[of h k s] obtain P where
    P: "pendingFor h (cancelDeletion k s) = filter P (pendingFor h s)" by blast
  show ?thesis
    by (rule tracked_filter[OF assms P cancel_other(1)[OF False]
          awaitingFor_cong[OF cancel_other(3)[OF False]]])
qed

lemma tracked_fires:
  assumes "tracked h s"
  shows "tracked h (timerFires t s)"
proof (cases "find (\<lambda>x. timer_id x = t) (timers s)")
  case None
  then show ?thesis using assms by (simp add: timerFires_def)
next
  case (Some x)
  show ?thesis
  proof (cases "clock s < fires_at x")
    case True
    with Some show ?thesis using assms by (simp add: timerFires_def)
  next
    case False
    with Some have st: "timerFires t s =
        s\<lparr>timers := clearTimeout t (timers s), awaiting := awaiting s @ [(t, captured x)],
          deleteCalls := deleteCalls s @ [captured x]\<rparr>"
      by (simp add: timerFires_def)
    show ?thesis
    proof (cases "captured x = h")
      case True
      from assms have "registered h s" by (simp add: tracked_def)
      from fires_same[OF this Some True] have "pendingFor h (timerFires t s) = []"
        by (simp add: st pendingFor_def)
      then show ?thesis by (simp add: tracked_def registered_empty)
    next
      case False
      from fires_pending_filter[of h t s] obtain P where
        P: "pendingFor h (timerFires t s) = filter P (pendingFor h s)" by blast
      have aw: "awaitingFor h (timerFires t s) = awaitingFor h s"
        using False by (simp add: st awaitingFor_def)
      have reg: "map_of (scheduledDeletions (timerFires t s)) h = map_of (scheduledDeletions s) h"
        by (simp add: fires_registry)
      show ?thesis by (rule tracked_filter[OF assms P reg aw])
    qed
  qed
qed

lemma awaiting_delete_filter:
  "filter (\<lambda>p. snd p = h) (AList.delete t al) = filter (\<lambda>p. fst p \<noteq> t) (filter (\<lambda>p. snd p = h) al)"
  by (induction al) (auto simp: AList.delete_eq)

lemma tracked_settles:
  assumes "tracked h s"
  shows "tracked h (deleteSettles t ok s)"
proof (cases "map_of (awaiting s) t")
  case None
  then show ?thesis using assms by (simp add: deleteSettles_def)
next
  case (Some mid)
  then have st: "deleteSettles t ok s =
      s\<lparr>awaiting := AList.delete t (awaiting s),
        scheduledDeletions := AList.delete mid (scheduledDeletions s)\<rparr>"
    by (simp add: deleteSettles_def)
  have pend: "pendingFor h (deleteSettles t ok s) = pendingFor h s"
    by (simp add: st pendingFor_def)
  have aw: "awaitingFor h (deleteSettles t ok s) = filter (\<lambda>p. fst p \<noteq> t) (awaitingFor h s)"
    by (simp add: st awaitingFor_def awaiting_delete_filter)
  show ?thesis
  proof (cases "mid = h")
    case True
    from Some have "(t, mid) \<in> set (awaiting s)" by (rule map_of_SomeD)
    with True have "(t, h) \<in> set (awaitingFor h s)" by (simp add: awaitingFor_def)
    then have "awaitingFor h s \<noteq> []" by auto
    with assms have "pendingFor h s = []" by (simp add: tracked_def)
    with pend show ?thesis by (simp add: tracked_def registered_empty)
  next
    case False
    then have reg: "map_of (scheduledDeletions (deleteSettles t ok s)) h = map_of (scheduledDeletions s) h"
      by (simp add: st)
    from assms have "registered h (deleteSettles t ok s)"
      using pend reg by (simp add: tracked_def registered_def)
    moreover from assms have "awaitingFor h (deleteSettles t ok s) = [] \<or> pendingFor h (deleteSettles t ok s) = []"
      using pend aw by (auto simp: tracked_def)
    ultimately show ?thesis by (simp add: tracked_def)
  qed
qed

lemma tracked_cleanup:
  assumes "tracked h s"
  shows "tracked h (cleanup s)"
proof -
  from assms have "registered h s" by (simp add: tracked_def)
  from cleanup_same[OF this] show ?thesis by (simp add: tracked_def registered_empty)
qed

lemma tracked_elapse: "tracked h s \<Longrightarrow> tracked h (s\<lparr>clock := clock s + d\<rparr>)"
  by (simp add: tracked_def registered_def pendingFor_def awaitingFor_def)

lemma tracked_step:
  assumes "tracked h s" and "schedules h e \<longrightarrow> awaitingFor h s = []"
  shows "tracked h (step e s)"
  using assms
  by (cases e)
    (simp_all add: tracked_schedule tracked_cancel tracked_fires tracked_settles tracked_cleanup
      tracked_elapse)

lemma tracked_run:
  "tracked h s \<Longrightarrow> exclusive h es s \<Longrightarrow> tracked h (run es s)"
proof (induction es arbitrary: s)
  case Nil
  then show ?case by simp
next
  case (Cons e es)
  from Cons.prems have "tracked h (step e s)" by (intro tracked_step) auto
  moreover from Cons.prems have "exclusive h es (step e s)" by simp
  ultimately show ?case using Cons.IH by simp
qed

lemma tracked_initial: "tracked h (initial now)"
  by (simp add: tracked_def registered_def pendingFor_def awaitingFor_def initial_def)

subsection \<open>Timer handles are never reused\<close>

lemma fresh_filter:
  assumes "fresh s" and "timers s' = filter P (timers s)" and "nextTimer s' = nextTimer s"
  shows "fresh s'"
proof -
  from assms(1) have d: "distinct (map timer_id (timers s))"
    and b: "\<forall>x \<in> set (timers s). timer_id x < nextTimer s"
    by (simp_all add: fresh_def list_all_iff)
  from d have "distinct (map timer_id (filter P (timers s)))" by (rule distinct_map_filter)
  moreover from b have "\<forall>x \<in> set (filter P (timers s)). timer_id x < nextTimer s" by simp
  ultimately show ?thesis unfolding fresh_def list_all_iff assms(2,3) by simp
qed

lemma cancel_timers_filter: "\<exists>P. timers (cancelDeletion k s) = filter P (timers s)"
proof (cases "map_of (scheduledDeletions s) k")
  case None
  then have "timers (cancelDeletion k s) = filter (\<lambda>_. True) (timers s)"
    by (simp add: cancelDeletion_def)
  then show ?thesis by blast
next
  case (Some e)
  then have "timers (cancelDeletion k s) = filter (\<lambda>x. timer_id x \<noteq> timeout e) (timers s)"
    by (simp add: cancelDeletion_def clearTimeout_def)
  then show ?thesis by blast
qed

lemma cancel_nextTimer: "nextTimer (cancelDeletion k s) = nextTimer s"
  by (simp add: cancelDeletion_def split: option.splits)

lemma fresh_cancel:
  assumes "fresh s"
  shows "fresh (cancelDeletion k s)"
proof -
  from cancel_timers_filter[of k s] obtain P where
    P: "timers (cancelDeletion k s) = filter P (timers s)" by blast
  show ?thesis by (rule fresh_filter[OF assms P cancel_nextTimer])
qed

lemma fresh_schedule:
  assumes "fresh s"
  shows "fresh (scheduleDeletion m s)"
proof (cases "isDMBased m")
  case False
  with assms show ?thesis by (simp add: scheduleDeletion_def)
next
  case True
  let ?c = "cancelDeletion (msg_id m) s"
  let ?new = "\<lparr>timer_id = nextTimer ?c, captured = msg_id m,
                fires_at = clock ?c + DELETE_AFTER_MS\<rparr>"
  from assms have "fresh ?c" by (rule fresh_cancel)
  then have d: "distinct (map timer_id (timers ?c))"
    and b: "\<forall>x \<in> set (timers ?c). timer_id x < nextTimer ?c"
    by (simp_all add: fresh_def list_all_iff)
  have t: "timers (scheduleDeletion m s) = timers ?c @ [?new]"
    and n: "nextTimer (scheduleDeletion m s) = Suc (nextTimer ?c)"
    using True by (simp_all add: scheduleDeletion_def Let_def)
  from b have "nextTimer ?c \<notin> timer_id ` set (timers ?c)" by auto
  with d have "distinct (map timer_id (timers ?c @ [?new]))" by simp
  moreover from b have "\<forall>x \<in> set (timers ?c @ [?new]). timer_id x < Suc (nextTimer ?c)"
    by (auto simp: less_Suc_eq)
  ultimately show ?thesis unfolding fresh_def list_all_iff t n by simp
qed

lemma fires_timers_filter: "\<exists>P. timers (timerFires t s) = filter P (timers s)"
proof (cases "timers (timerFires t s) = timers s")
  case True
  then have "timers (timerFires t s) = filter (\<lambda>_. True) (timers s)" by simp
  then show ?thesis by blast
next
  case False
  then have "timers (timerFires t s) = clearTimeout t (timers s)"
    by (auto simp: timerFires_def split: option.splits if_splits)
  then have "timers (timerFires t s) = filter (\<lambda>x. timer_id x \<noteq> t) (timers s)"
    by (simp add: clearTimeout_def)
  then show ?thesis by blast
qed

lemma fires_nextTimer: "nextTimer (timerFires t s) = nextTimer s"
  by (simp add: timerFires_def split: option.splits)

lemma fresh_fires:
  assumes "fresh s"
  shows "fresh (timerFires t s)"
proof -
  from fires_timers_filter[of t s] obtain P where
    P: "timers (timerFires t s) = filter P (timers s)" by blast
  show ?thesis by (rule fresh_filter[OF assms P fires_nextTimer])
qed

lemma fresh_settles:
  assumes "fresh s"
  shows "fresh (deleteSettles t ok s)"
proof -
  have "timers (deleteSettles t ok s) = timers s" "nextTimer (deleteSettles t ok s) = nextTimer s"
    by (simp_all add: deleteSettles_def split: option.splits)
  with assms show ?thesis by (simp add: fresh_def)
qed

lemma fresh_cleanup:
  assumes "fresh s"
  shows "fresh (cleanup s)"
proof -
  from cleanup_filter[of "scheduledDeletions s" "timers s"] obtain P where
    "foldr (\<lambda>(_, scheduled). clearTimeout (timeout scheduled)) (scheduledDeletions s) (timers s)
      = filter P (timers s)" by blast
  then have P: "timers (cleanup s) = filter P (timers s)" by (simp add: cleanup_def)
  have n: "nextTimer (cleanup s) = nextTimer s" by (simp add: cleanup_def)
  show ?thesis by (rule fresh_filter[OF assms P n])
qed

lemma fresh_elapse: "fresh s \<Longrightarrow> fresh (s\<lparr>clock := clock s + d\<rparr>)"
  by (simp add: fresh_def)

lemma fresh_step: "fresh s \<Longrightarrow> fresh (step e s)"
  by (cases e)
    (simp_all add: fresh_schedule fresh_cancel fresh_fires fresh_settles fresh_cleanup fresh_elapse)

lemma fresh_run: "fresh s \<Longrightarrow> fresh (run es s)"
  by (induction es arbitrary: s) (simp_all add: fresh_step)

lemma fresh_initial: "fresh (initial now)"
  by (simp add: fresh_def initial_def)

lemma at_most_one:
  assumes "fresh s" and "registered h s"
  shows "length (pendingFor h s) \<le> 1"
proof -
  from assms(1) have "distinct (map timer_id (timers s))" by (simp add: fresh_def)
  then have d: "distinct (map timer_id (pendingFor h s))"
    unfolding pendingFor_def by (rule distinct_map_filter)
  show ?thesis
  proof (cases "pendingFor h s")
    case Nil
    then show ?thesis by simp
  next
    case outer: (Cons x xs)
    show ?thesis
    proof (cases xs)
      case Nil
      with outer show ?thesis by simp
    next
      case (Cons y ys)
      with outer assms(2) have "timer_id x = timer_id y"
        by (auto simp: registered_def)
      with d outer Cons show ?thesis by simp
    qed
  qed
qed

subsection \<open>Delete calls on a handle come from its live timers\<close>

lemma fires_calls:
  assumes "list_all (\<lambda>x. clock s < fires_at x) (pendingFor h s)"
  shows "deleteCallsOn h (timerFires t s) = deleteCallsOn h s"
    and "awaitingFor h (timerFires t s) = awaitingFor h s"
proof -
  have "timerFires t s = s \<or> (\<exists>x. x \<in> set (timers s) \<and> \<not> clock s < fires_at x
        \<and> timerFires t s = s\<lparr>timers := clearTimeout t (timers s),
                 awaiting := awaiting s @ [(t, captured x)],
                 deleteCalls := deleteCalls s @ [captured x]\<rparr>)"
  proof (cases "find (\<lambda>x. timer_id x = t) (timers s)")
    case None
    then show ?thesis by (simp add: timerFires_def)
  next
    case (Some x)
    then have xin: "x \<in> set (timers s)" by (auto simp: find_Some_iff)
    show ?thesis
    proof (cases "clock s < fires_at x")
      case True
      with Some show ?thesis by (simp add: timerFires_def)
    next
      case False
      with Some have "timerFires t s = s\<lparr>timers := clearTimeout t (timers s),
                 awaiting := awaiting s @ [(t, captured x)],
                 deleteCalls := deleteCalls s @ [captured x]\<rparr>"
        by (simp add: timerFires_def)
      with xin False show ?thesis by blast
    qed
  qed
  then have "deleteCallsOn h (timerFires t s) = deleteCallsOn h s
           \<and> awaitingFor h (timerFires t s) = awaitingFor h s"
  proof
    assume "timerFires t s = s"
    then show ?thesis by simp
  next
    assume "\<exists>x. x \<in> set (timers s) \<and> \<not> clock s < fires_at x
        \<and> timerFires t s = s\<lparr>timers := clearTimeout t (timers s),
                 awaiting := awaiting s @ [(t, captured x)],
                 deleteCalls := deleteCalls s @ [captured x]\<rparr>"
    then obtain x where x: "x \<in> set (timers s)" "\<not> clock s < fires_at x"
      and st: "timerFires t s = s\<lparr>timers := clearTimeout t (timers s),
                 awaiting := awaiting s @ [(t, captured x)],
                 deleteCalls := deleteCalls s @ [captured x]\<rparr>"
      by blast
    have "captured x \<noteq> h"
    proof
      assume "captured x = h"
      with x(1) have "x \<in> set (pendingFor h s)" by (simp add: pendingFor_def)
      with assms have "clock s < fires_at x" by (simp add: list_all_iff)
      with x(2) show False by simp
    qed
    then show ?thesis by (simp add: st deleteCallsOn_def awaitingFor_def)
  qed
  then show "deleteCallsOn h (timerFires t s) = deleteCallsOn h s"
    and "awaitingFor h (timerFires t s) = awaitingFor h s" by simp_all
qed

lemma cleanup_pending_filter: "\<exists>P. pendingFor h (cleanup s) = filter P (pendingFor h s)"
proof -
  from cleanup_filter[of "scheduledDeletions s" "timers s"] obtain P where
    "foldr (\<lambda>(_, scheduled). clearTimeout (timeout scheduled)) (scheduledDeletions s) (timers s)
      = filter P (timers s)" by blast
  then have "pendingFor h (cleanup s) = filter P (pendingFor h s)"
    by (simp add: cleanup_def pendingFor_def) metis
  then show ?thesis by blast
qed

lemma settles_facts:
  "pendingFor h (deleteSettles t ok s) = pendingFor h s"
  "deleteCalls (deleteSettles t ok s) = deleteCalls s"
  "\<exists>P. awaitingFor h (deleteSettles t ok s) = filter P (awaitingFor h s)"
proof -
  show "pendingFor h (deleteSettles t ok s) = pendingFor h s"
    by (simp add: deleteSettles_def pendingFor_def split: option.splits)
  show "deleteCalls (deleteSettles t ok s) = deleteCalls s"
    by (simp add: deleteSettles_def split: option.splits)
  show "\<exists>P. awaitingFor h (deleteSettles t ok s) = filter P (awaitingFor h s)"
  proof (cases "map_of (awaiting s) t")
    case None
    then have "awaitingFor h (deleteSettles t ok s) = filter (\<lambda>_. True) (awaitingFor h s)"
      by (simp add: deleteSettles_def)
    then show ?thesis by blast
  next
    case (Some mid)
    then have "awaitingFor h (deleteSettles t ok s) = filter (\<lambda>p. fst p \<noteq> t) (awaitingFor h s)"
      by (simp add: deleteSettles_def awaitingFor_def awaiting_delete_filter)
    then show ?thesis by blast
  qed
qed

text \<open>What a step that does not schedule \<open>h\<close> does to the live timers of \<open>h\<close>: it can only
  remove some.\<close>

lemma step_pending_filter:
  assumes "\<not> schedules h e"
  shows "\<exists>P. pendingFor h (step e s) = filter P (pendingFor h s)"
proof (cases e)
  case (ScheduleDeletion m)
  with assms have "\<not> (isDMBased m \<and> msg_id m = h)" by simp
  from schedule_other(2)[OF this] ScheduleDeletion show ?thesis by simp
next
  case (CancelDeletion k)
  with cancel_pending_filter[of h k s] show ?thesis by simp
next
  case (Elapse d)
  have "pendingFor h (step (Elapse d) s) = filter (\<lambda>_. True) (pendingFor h s)"
    by (simp add: pendingFor_def)
  with Elapse show ?thesis by blast
next
  case (TimerFires t)
  with fires_pending_filter[of h t s] show ?thesis by simp
next
  case (DeleteSettles t ok)
  have "pendingFor h (step (DeleteSettles t ok) s) = filter (\<lambda>_. True) (pendingFor h s)"
    by (simp add: settles_facts(1))
  with DeleteSettles show ?thesis by blast
next
  case Cleanup
  with cleanup_pending_filter[of h s] show ?thesis by simp
qed

lemma step_calls:
  assumes "\<not> schedules h e" and "list_all (\<lambda>x. clock s < fires_at x) (pendingFor h s)"
  shows "deleteCallsOn h (step e s) = deleteCallsOn h s"
proof (cases e)
  case (ScheduleDeletion m)
  with assms have "\<not> (isDMBased m \<and> msg_id m = h)" by simp
  from schedule_other(4)[OF this, of s] ScheduleDeletion show ?thesis
    by (simp add: deleteCallsOn_def)
next
  case (CancelDeletion k)
  have "deleteCalls (cancelDeletion k s) = deleteCalls s"
    by (simp add: cancelDeletion_def split: option.splits)
  with CancelDeletion show ?thesis by (simp add: deleteCallsOn_def)
next
  case (Elapse d)
  then show ?thesis by (simp add: deleteCallsOn_def)
next
  case (TimerFires t)
  with fires_calls(1)[OF assms(2)] show ?thesis by simp
next
  case (DeleteSettles t ok)
  then show ?thesis by (simp add: deleteCallsOn_def settles_facts(2))
next
  case Cleanup
  then show ?thesis by (simp add: deleteCallsOn_def cleanup_def)
qed

lemma step_awaiting:
  assumes "\<not> schedules h e" and "list_all (\<lambda>x. clock s < fires_at x) (pendingFor h s)"
    and "awaitingFor h s = []"
  shows "awaitingFor h (step e s) = []"
proof (cases e)
  case (ScheduleDeletion m)
  with assms have "\<not> (isDMBased m \<and> msg_id m = h)" by simp
  from schedule_other(3)[OF this, of s] ScheduleDeletion assms(3) show ?thesis
    by (simp add: awaitingFor_def)
next
  case (CancelDeletion k)
  have "awaiting (cancelDeletion k s) = awaiting s"
    by (simp add: cancelDeletion_def split: option.splits)
  with CancelDeletion assms(3) show ?thesis by (simp add: awaitingFor_def)
next
  case (Elapse d)
  with assms(3) show ?thesis by (simp add: awaitingFor_def)
next
  case (TimerFires t)
  with fires_calls(2)[OF assms(2)] assms(3) show ?thesis by simp
next
  case (DeleteSettles t ok)
  from settles_facts(3)[of h t ok s] assms(3) have "awaitingFor h (deleteSettles t ok s) = []"
    by auto
  with DeleteSettles show ?thesis by simp
next
  case Cleanup
  with assms(3) show ?thesis by (simp add: awaitingFor_def cleanup_def)
qed

lemma clock_step: "clock s \<le> clock (step e s)"
proof (cases e)
  case (ScheduleDeletion m)
  then show ?thesis
    by (simp add: scheduleDeletion_def Let_def cancelDeletion_def split: option.splits)
next
  case (CancelDeletion k)
  then show ?thesis by (simp add: cancelDeletion_def split: option.splits)
next
  case (TimerFires t)
  then show ?thesis by (simp add: timerFires_def split: option.splits)
next
  case (DeleteSettles t ok)
  then show ?thesis by (simp add: deleteSettles_def split: option.splits)
qed (simp_all add: cleanup_def)

lemma clock_run: "clock s \<le> clock (run es s)"
proof (induction es arbitrary: s)
  case Nil
  show ?case by simp
next
  case (Cons e es)
  have "clock s \<le> clock (step e s)" by (rule clock_step)
  also have "\<dots> \<le> clock (run es (step e s))" by (rule Cons.IH)
  finally show ?case by simp
qed

text \<open>While no timer of \<open>h\<close> is due and \<open>h\<close> is not scheduled again, nothing calls delete
  on \<open>h\<close> and no callback for \<open>h\<close> starts.\<close>

lemma not_due_run:
  assumes "list_all (\<lambda>x. N \<le> fires_at x) (pendingFor h s)"
    and "awaitingFor h s = []"
    and "\<forall>e \<in> set es. \<not> schedules h e"
    and "clock (run es s) < N"
  shows "deleteCallsOn h (run es s) = deleteCallsOn h s
       \<and> awaitingFor h (run es s) = []
       \<and> list_all (\<lambda>x. N \<le> fires_at x) (pendingFor h (run es s))"
  using assms
proof (induction es arbitrary: s)
  case Nil
  then show ?case by simp
next
  case (Cons e es)
  from Cons.prems(3) have ne: "\<not> schedules h e" and rest: "\<forall>e \<in> set es. \<not> schedules h e"
    by simp_all
  have "clock s \<le> clock (step e s)" by (rule clock_step)
  also have "\<dots> \<le> clock (run es (step e s))" by (rule clock_run)
  also have "\<dots> < N" using Cons.prems(4) by simp
  finally have now: "clock s < N" .
  have nd: "list_all (\<lambda>x. clock s < fires_at x) (pendingFor h s)"
    using Cons.prems(1) now by (auto simp: list_all_iff)
  from step_pending_filter[OF ne, of s] obtain P where
    "pendingFor h (step e s) = filter P (pendingFor h s)" by blast
  with Cons.prems(1) have p: "list_all (\<lambda>x. N \<le> fires_at x) (pendingFor h (step e s))"
    by (simp add: list_all_iff)
  have a: "awaitingFor h (step e s) = []" using ne nd Cons.prems(2) by (rule step_awaiting)
  have c: "deleteCallsOn h (step e s) = deleteCallsOn h s" using ne nd by (rule step_calls)
  from Cons.IH[OF p a rest] Cons.prems(4) c show ?case by simp
qed

lemma idle_run:
  assumes "pendingFor h s = []" and "\<forall>e \<in> set es. \<not> schedules h e"
  shows "deleteCallsOn h (run es s) = deleteCallsOn h s \<and> pendingFor h (run es s) = []"
  using assms
proof (induction es arbitrary: s)
  case Nil
  then show ?case by simp
next
  case (Cons e es)
  from Cons.prems(2) have ne: "\<not> schedules h e" and rest: "\<forall>e \<in> set es. \<not> schedules h e"
    by simp_all
  from step_pending_filter[OF ne, of s] Cons.prems(1) have p: "pendingFor h (step e s) = []"
    by auto
  have "list_all (\<lambda>x. clock s < fires_at x) (pendingFor h s)" using Cons.prems(1) by simp
  with ne have c: "deleteCallsOn h (step e s) = deleteCallsOn h s" by (rule step_calls)
  from Cons.IH[OF p rest] c show ?case by simp
qed

lemma no_schedule_exclusive: "\<forall>e \<in> set es. \<not> schedules h e \<Longrightarrow> exclusive h es s"
  by (induction es arbitrary: s) simp_all

lemmas sched_eval = scheduleDeletion_def cancelDeletion_def timerFires_def deleteSettles_def
  cleanup_def clearTimeout_def initial_def exampleDM_def DELETE_AFTER_MS_def Let_def
  pendingFor_def awaitingFor_def deleteCallsOn_def

subsection \<open>The registry and the handles of the runtime\<close>

lemma set_delete_subset: "set (AList.delete k al) \<subseteq> set al"
  by (auto simp: AList.delete_eq)

lemma set_update_subset: "set (AList.update k v al) \<subseteq> insert (k, v) (set al)"
  by (induction al) auto

lemma recorded_cancel:
  assumes "recorded s"
  shows "recorded (cancelDeletion k s)"
proof -
  have "set (scheduledDeletions (cancelDeletion k s)) \<subseteq> set (scheduledDeletions s)"
  proof (cases "map_of (scheduledDeletions s) k")
    case None
    then show ?thesis by (simp add: cancelDeletion_def)
  next
    case (Some e)
    then have "scheduledDeletions (cancelDeletion k s) = AList.delete k (scheduledDeletions s)"
      by (simp add: cancelDeletion_def)
    then show ?thesis by (simp add: set_delete_subset)
  qed
  with assms show ?thesis by (auto simp: recorded_def list_all_iff cancel_nextTimer)
qed

lemma recorded_schedule:
  assumes "recorded s"
  shows "recorded (scheduleDeletion m s)"
proof (cases "isDMBased m")
  case False
  with assms show ?thesis by (simp add: scheduleDeletion_def)
next
  case True
  let ?c = "cancelDeletion (msg_id m) s"
  let ?e = "\<lparr>messageId = msg_id m, channelId = msg_channel_id m,
             deleteAt = clock s + DELETE_AFTER_MS, timeout = nextTimer ?c\<rparr>"
  from assms have "recorded ?c" by (rule recorded_cancel)
  then have old: "\<forall>p \<in> set (scheduledDeletions ?c). timeout (snd p) < nextTimer ?c"
    by (simp add: recorded_def list_all_iff)
  have reg: "scheduledDeletions (scheduleDeletion m s) = AList.update (msg_id m) ?e (scheduledDeletions ?c)"
    and n: "nextTimer (scheduleDeletion m s) = Suc (nextTimer ?c)"
    using True by (simp_all add: scheduleDeletion_def Let_def)
  have "\<forall>p \<in> set (AList.update (msg_id m) ?e (scheduledDeletions ?c)). timeout (snd p) < Suc (nextTimer ?c)"
  proof
    fix p assume "p \<in> set (AList.update (msg_id m) ?e (scheduledDeletions ?c))"
    with set_update_subset[of "msg_id m" ?e "scheduledDeletions ?c"]
    have "p = (msg_id m, ?e) \<or> p \<in> set (scheduledDeletions ?c)" by auto
    then show "timeout (snd p) < Suc (nextTimer ?c)"
    proof
      assume "p = (msg_id m, ?e)"
      then show ?thesis by simp
    next
      assume "p \<in> set (scheduledDeletions ?c)"
      with old have "timeout (snd p) < nextTimer ?c" by blast
      then show ?thesis by simp
    qed
  qed
  then show ?thesis unfolding recorded_def list_all_iff reg n .
qed

lemma recorded_fires: "recorded s \<Longrightarrow> recorded (timerFires t s)"
  by (simp add: recorded_def fires_registry fires_nextTimer)

lemma recorded_settles:
  assumes "recorded s"
  shows "recorded (deleteSettles t ok s)"
proof -
  have "set (scheduledDeletions (deleteSettles t ok s)) \<subseteq> set (scheduledDeletions s)"
  proof (cases "map_of (awaiting s) t")
    case None
    then show ?thesis by (simp add: deleteSettles_def)
  next
    case (Some mid)
    then have "scheduledDeletions (deleteSettles t ok s) = AList.delete mid (scheduledDeletions s)"
      by (simp add: deleteSettles_def)
    then show ?thesis by (simp add: set_delete_subset)
  qed
  moreover have "nextTimer (deleteSettles t ok s) = nextTimer s"
    by (simp add: deleteSettles_def split: option.splits)
  ultimately show ?thesis using assms by (auto simp: recorded_def list_all_iff)
qed

lemma recorded_step: "recorded s \<Longrightarrow> recorded (step e s)"
proof (cases e)
  case (Elapse d)
  assume "recorded s"
  with Elapse show ?thesis by (simp add: recorded_def)
next
  case Cleanup
  then show ?thesis by (simp add: recorded_def cleanup_def)
qed (simp_all add: recorded_schedule recorded_cancel recorded_fires recorded_settles)

lemma recorded_run: "recorded s \<Longrightarrow> recorded (run es s)"
  by (induction es arbitrary: s) (simp_all add: recorded_step)

lemma recorded_initial: "recorded (initial now)"
  by (simp add: recorded_def initial_def)

lemma one_per_id:
  "distinct (map timer_id ts) \<Longrightarrow> length (filter (\<lambda>x. timer_id x = t) ts) \<le> 1"
proof (induction ts)
  case Nil
  then show ?case by simp
next
  case (Cons a ts)
  show ?case
  proof (cases "timer_id a = t")
    case True
    with Cons.prems have "t \<notin> timer_id ` set ts" by auto
    then have "filter (\<lambda>x. timer_id x = t) ts = []" by (auto simp: filter_empty_conv)
    with True show ?thesis by simp
  next
    case False
    with Cons show ?thesis by simp
  qed
qed

lemma registry_holds_one:
  assumes "fresh s"
  shows "length (filter (\<lambda>x. map_option timeout (map_of (scheduledDeletions s) h) = Some (timer_id x))
           (timers s)) \<le> 1"
proof (cases "map_of (scheduledDeletions s) h")
  case None
  then show ?thesis by simp
next
  case (Some e)
  from assms have "distinct (map timer_id (timers s))" by (simp add: fresh_def)
  from one_per_id[OF this, of "timeout e"]
  have "length (filter (\<lambda>x. timer_id x = timeout e) (timers s)) \<le> 1" .
  moreover have "filter (\<lambda>x. map_option timeout (map_of (scheduledDeletions s) h) = Some (timer_id x))
           (timers s) = filter (\<lambda>x. timer_id x = timeout e) (timers s)"
    using Some by (intro filter_cong) auto
  ultimately show ?thesis by simp
qed

text \<open>What one call of \<open>scheduleDeletion\<close> for a direct message does to the runtime.\<close>

lemma schedule_explicit:
  assumes "isDMBased m"
  shows "timers (scheduleDeletion m s) =
           (case map_of (scheduledDeletions s) (msg_id m) of
              None \<Rightarrow> timers s
            | Some e \<Rightarrow> clearTimeout (timeout e) (timers s))
           @ [\<lparr>timer_id = nextTimer s, captured = msg_id m, fires_at = clock s + DELETE_AFTER_MS\<rparr>]"
    and "map_option timeout (map_of (scheduledDeletions (scheduleDeletion m s)) (msg_id m))
           = Some (nextTimer s)"
    and "nextTimer (scheduleDeletion m s) = Suc (nextTimer s)"
    and "clock (scheduleDeletion m s) = clock s"
  using assms
  by (simp_all add: scheduleDeletion_def Let_def cancelDeletion_def AList.update_conv'
      split: option.splits)

lemma schedule_replaces:
  assumes "fresh s" and "recorded s" and "isDMBased m"
  shows "\<forall>e. map_of (scheduledDeletions s) (msg_id m) = Some e \<longrightarrow>
            filter (\<lambda>x. timer_id x = timeout e) (timers (scheduleDeletion m s)) = []"
    and "filter (\<lambda>x. timer_id x = nextTimer s) (timers (scheduleDeletion m s)) =
           [\<lparr>timer_id = nextTimer s, captured = msg_id m, fires_at = clock s + DELETE_AFTER_MS\<rparr>]"
    and "filter (\<lambda>x. nextTimer s < timer_id x) (timers (scheduleDeletion m s)) = []"
proof -
  from assms(1) have below: "\<forall>x \<in> set (timers s). timer_id x < nextTimer s"
    by (simp add: fresh_def list_all_iff)
  show "\<forall>e. map_of (scheduledDeletions s) (msg_id m) = Some e \<longrightarrow>
            filter (\<lambda>x. timer_id x = timeout e) (timers (scheduleDeletion m s)) = []"
  proof (intro allI impI)
    fix e assume e: "map_of (scheduledDeletions s) (msg_id m) = Some e"
    then have "(msg_id m, e) \<in> set (scheduledDeletions s)" by (rule map_of_SomeD)
    with assms(2) have "timeout e < nextTimer s" by (auto simp: recorded_def list_all_iff)
    then show "filter (\<lambda>x. timer_id x = timeout e) (timers (scheduleDeletion m s)) = []"
      using e by (auto simp: schedule_explicit(1)[OF assms(3)] clearTimeout_def filter_empty_conv)
  qed
  show "filter (\<lambda>x. timer_id x = nextTimer s) (timers (scheduleDeletion m s)) =
           [\<lparr>timer_id = nextTimer s, captured = msg_id m, fires_at = clock s + DELETE_AFTER_MS\<rparr>]"
    using below
    by (auto simp: schedule_explicit(1)[OF assms(3)] clearTimeout_def filter_empty_conv
        split: option.splits)
  show "filter (\<lambda>x. nextTimer s < timer_id x) (timers (scheduleDeletion m s)) = []"
    using below
    by (auto simp: schedule_explicit(1)[OF assms(3)] clearTimeout_def filter_empty_conv
        split: option.splits dest: less_asym)
qed

lemma schedule_twice:
  assumes "fresh s" and "recorded s" and "isDMBased m"
  shows "filter (\<lambda>x. timer_id x = nextTimer s \<or> timer_id x = Suc (nextTimer s))
           (timers (scheduleDeletion m (scheduleDeletion m s))) =
         [\<lparr>timer_id = Suc (nextTimer s), captured = msg_id m,
           fires_at = clock s + DELETE_AFTER_MS\<rparr>]"
proof -
  let ?s1 = "scheduleDeletion m s"
  note e1 = schedule_explicit[OF assms(3), of s]
  from e1(2) obtain e where e: "map_of (scheduledDeletions ?s1) (msg_id m) = Some e"
    and te: "timeout e = nextTimer s" by auto
  have f1: "fresh ?s1" using assms(1) by (rule fresh_schedule)
  then have below: "\<forall>x \<in> set (timers ?s1). timer_id x < Suc (nextTimer s)"
    by (simp add: fresh_def list_all_iff e1(3))
  have t2: "timers (scheduleDeletion m ?s1) =
      clearTimeout (nextTimer s) (timers ?s1)
      @ [\<lparr>timer_id = Suc (nextTimer s), captured = msg_id m, fires_at = clock s + DELETE_AFTER_MS\<rparr>]"
    using schedule_explicit(1)[OF assms(3), of ?s1] e te e1(3,4) by simp
  have "filter (\<lambda>x. timer_id x = nextTimer s \<or> timer_id x = Suc (nextTimer s))
          (clearTimeout (nextTimer s) (timers ?s1)) = []"
    using below by (auto simp: clearTimeout_def filter_empty_conv)
  then show ?thesis by (simp add: t2)
qed

text \<open>
  C7. In every state the service reaches, the registry holds at most one live timer for
  a handle. Scheduling a direct message cancels the timer of the entry its handle has (if
  any) and replaces the entry by one for a new timer; after scheduling the same message
  twice, only the second of the two new timers is live, and it is the registered one. In
  runs where \<open>scheduleDeletion\<close> is not called for a handle while a callback for it still
  awaits its delete (the single-writer discipline), the registered timer is the only live
  timer of the handle at every point, and after scheduling twice with no callback awaiting
  exactly one timer is live for it: the second.
\<close>

theorem one_live_timer_per_handle:
  assumes "s = run es (initial now)"
    and "isDMBased m" and "msg_id m = h"
    and "s1 = scheduleDeletion m s" and "s2 = scheduleDeletion m s1"
  shows "length (filter (\<lambda>x. map_option timeout (map_of (scheduledDeletions s) h) = Some (timer_id x))
                  (timers s)) \<le> 1
       \<and> (\<forall>e. map_of (scheduledDeletions s) h = Some e \<longrightarrow>
              filter (\<lambda>x. timer_id x = timeout e) (timers s1) = [])
       \<and> map_option timeout (map_of (scheduledDeletions s1) h) = Some (nextTimer s)
       \<and> filter (\<lambda>x. timer_id x = nextTimer s) (timers s1) =
            [\<lparr>timer_id = nextTimer s, captured = h, fires_at = clock s + DELETE_AFTER_MS\<rparr>]
       \<and> map_option timeout (map_of (scheduledDeletions s2) h) = Some (Suc (nextTimer s))
       \<and> filter (\<lambda>x. timer_id x = nextTimer s \<or> timer_id x = Suc (nextTimer s)) (timers s2) =
            [\<lparr>timer_id = Suc (nextTimer s), captured = h, fires_at = clock s + DELETE_AFTER_MS\<rparr>]
       \<and> (exclusive h es (initial now) \<longrightarrow>
             length (pendingFor h s) \<le> 1
           \<and> registered h s
           \<and> (awaitingFor h s = [] \<longrightarrow>
                 pendingFor h s1 =
                   [\<lparr>timer_id = nextTimer s, captured = h, fires_at = clock s + DELETE_AFTER_MS\<rparr>]
               \<and> pendingFor h s2 =
                   [\<lparr>timer_id = Suc (nextTimer s), captured = h,
                     fires_at = clock s + DELETE_AFTER_MS\<rparr>]))"
proof -
  have fr: "fresh s" unfolding assms(1) using fresh_initial by (rule fresh_run)
  have rc: "recorded s" unfolding assms(1) using recorded_initial by (rule recorded_run)
  have a: "length (filter (\<lambda>x. map_option timeout (map_of (scheduledDeletions s) h) = Some (timer_id x))
                  (timers s)) \<le> 1"
    using fr by (rule registry_holds_one)
  note rep = schedule_replaces[OF fr rc assms(2), unfolded assms(3), folded assms(4)]
  note ex1 = schedule_explicit[OF assms(2), of s, unfolded assms(3), folded assms(4)]
  note ex2 = schedule_explicit[OF assms(2), of s1, unfolded assms(3), folded assms(5)]
  have b: "\<forall>e. map_of (scheduledDeletions s) h = Some e \<longrightarrow>
              filter (\<lambda>x. timer_id x = timeout e) (timers s1) = []"
    by (rule rep(1))
  have c: "map_option timeout (map_of (scheduledDeletions s1) h) = Some (nextTimer s)"
    by (rule ex1(2))
  have d: "filter (\<lambda>x. timer_id x = nextTimer s) (timers s1) =
            [\<lparr>timer_id = nextTimer s, captured = h, fires_at = clock s + DELETE_AFTER_MS\<rparr>]"
    by (rule rep(2))
  have e: "map_option timeout (map_of (scheduledDeletions s2) h) = Some (Suc (nextTimer s))"
    using ex2(2) ex1(3) by simp
  have f: "filter (\<lambda>x. timer_id x = nextTimer s \<or> timer_id x = Suc (nextTimer s)) (timers s2) =
            [\<lparr>timer_id = Suc (nextTimer s), captured = h, fires_at = clock s + DELETE_AFTER_MS\<rparr>]"
    using schedule_twice[OF fr rc assms(2)] unfolding assms(3,4,5) .
  have g: "length (pendingFor h s) \<le> 1
           \<and> registered h s
           \<and> (awaitingFor h s = [] \<longrightarrow>
                 pendingFor h s1 =
                   [\<lparr>timer_id = nextTimer s, captured = h, fires_at = clock s + DELETE_AFTER_MS\<rparr>]
               \<and> pendingFor h s2 =
                   [\<lparr>timer_id = Suc (nextTimer s), captured = h,
                     fires_at = clock s + DELETE_AFTER_MS\<rparr>])"
    if ex: "exclusive h es (initial now)"
  proof -
    have tr: "tracked h s" unfolding assms(1) using tracked_initial ex by (rule tracked_run)
    then have reg: "registered h s" by (simp add: tracked_def)
    have one: "length (pendingFor h s) \<le> 1" using fr reg by (rule at_most_one)
    have twice: "pendingFor h s1 =
                   [\<lparr>timer_id = nextTimer s, captured = h, fires_at = clock s + DELETE_AFTER_MS\<rparr>]
               \<and> pendingFor h s2 =
                   [\<lparr>timer_id = Suc (nextTimer s), captured = h,
                     fires_at = clock s + DELETE_AFTER_MS\<rparr>]"
      if aw: "awaitingFor h s = []"
    proof -
      note first = schedule_same[OF reg assms(2,3)]
      have "schedules h (ScheduleDeletion m) \<longrightarrow> awaitingFor h s = []" using aw by simp
      with tr have "tracked h (scheduleDeletion m s)" by (rule tracked_schedule)
      then have reg1: "registered h (scheduleDeletion m s)" by (simp add: tracked_def)
      note second = schedule_same[OF reg1 assms(2,3)]
      from first(1) second(1) first(5,6) show ?thesis unfolding assms(4,5) by simp
    qed
    from one reg twice show ?thesis by blast
  qed
  from a b c d e f g show ?thesis by blast
qed

theorem one_live_timer_per_handle_witness:
  "exclusive ''m1'' [ScheduleDeletion exampleDM, Elapse 5] (initial 0)
   \<and> timers (run [ScheduleDeletion exampleDM, Elapse 5] (initial 0)) =
       [\<lparr>timer_id = 0, captured = ''m1'', fires_at = 1800000\<rparr>]
   \<and> timers
        (scheduleDeletion exampleDM (scheduleDeletion exampleDM
          (run [ScheduleDeletion exampleDM, Elapse 5] (initial 0)))) =
       [\<lparr>timer_id = 2, captured = ''m1'', fires_at = 1800005\<rparr>]
   \<and> pendingFor ''m1''
        (scheduleDeletion exampleDM (scheduleDeletion exampleDM
          (run [ScheduleDeletion exampleDM, Elapse 5] (initial 0)))) =
       [\<lparr>timer_id = 2, captured = ''m1'', fires_at = 1800005\<rparr>]"
proof -
  let ?s = "run [ScheduleDeletion exampleDM, Elapse 5] (initial 0)"
  have ex: "exclusive ''m1'' [ScheduleDeletion exampleDM, Elapse 5] (initial 0)"
    by (simp add: sched_eval)
  have s: "?s = \<lparr>scheduledDeletions =
                   [(''m1'', \<lparr>messageId = ''m1'', channelId = ''dm1'', deleteAt = 1800000,
                              timeout = 0\<rparr>)],
                 timers = [\<lparr>timer_id = 0, captured = ''m1'', fires_at = 1800000\<rparr>],
                 awaiting = [], deleteCalls = [], nextTimer = 1, clock = 5\<rparr>"
    by (simp add: sched_eval)
  have m: "isDMBased exampleDM" "msg_id exampleDM = ''m1''" by (simp_all add: exampleDM_def)
  have aw: "awaitingFor ''m1'' ?s = []" unfolding s by (simp add: awaitingFor_def)
  from one_live_timer_per_handle[OF refl m refl refl, of "[ScheduleDeletion exampleDM, Elapse 5]" 0]
    ex aw
  have "pendingFor ''m1'' (scheduleDeletion exampleDM (scheduleDeletion exampleDM ?s)) =
       [\<lparr>timer_id = Suc (nextTimer ?s), captured = ''m1'',
         fires_at = clock ?s + DELETE_AFTER_MS\<rparr>]"
    by blast
  then have p: "pendingFor ''m1'' (scheduleDeletion exampleDM (scheduleDeletion exampleDM ?s)) =
       [\<lparr>timer_id = 2, captured = ''m1'', fires_at = 1800005\<rparr>]"
    unfolding s by (simp add: DELETE_AFTER_MS_def)
  have t: "timers (scheduleDeletion exampleDM (scheduleDeletion exampleDM ?s)) =
       [\<lparr>timer_id = 2, captured = ''m1'', fires_at = 1800005\<rparr>]"
    unfolding s by (simp add: sched_eval)
  have t0: "timers ?s = [\<lparr>timer_id = 0, captured = ''m1'', fires_at = 1800000\<rparr>]"
    unfolding s by simp
  from ex t0 t p show ?thesis by blast
qed

text \<open>
  C8. In a run that keeps the single-writer discipline: if a direct message is scheduled
  while no callback for it awaits its delete, and \<open>cancelDeletion\<close> is called for it
  before the time to live has elapsed (the message not being scheduled again in between),
  then its entry is gone from the registry, no timer is live for it, and in every later
  run that does not schedule it again the service makes no delete call on it.
\<close>

theorem cancel_prevents_deletion:
  assumes "exclusive h es0 (initial now)" and "s = run es0 (initial now)"
    and "isDMBased m" and "msg_id m = h" and "awaitingFor h s = []"
    and "\<forall>e \<in> set es1. \<not> schedules h e"
    and "s1 = run es1 (scheduleDeletion m s)"
    and "clock s1 < clock s + DELETE_AFTER_MS"
    and "\<forall>e \<in> set es2. \<not> schedules h e"
  shows "map_of (scheduledDeletions (cancelDeletion h s1)) h = None
       \<and> pendingFor h (run es2 (cancelDeletion h s1)) = []
       \<and> deleteCallsOn h (run es2 (cancelDeletion h s1)) = deleteCallsOn h s"
proof -
  let ?N = "clock s + DELETE_AFTER_MS"
  let ?a = "scheduleDeletion m s"
  have tr: "tracked h s" unfolding assms(2) using tracked_initial assms(1) by (rule tracked_run)
  then have reg: "registered h s" by (simp add: tracked_def)
  note sc = schedule_same[OF reg assms(3,4)]
  have "schedules h (ScheduleDeletion m) \<longrightarrow> awaitingFor h s = []" using assms(5) by simp
  with tr have tra: "tracked h ?a" by (rule tracked_schedule)
  have due: "list_all (\<lambda>x. ?N \<le> fires_at x) (pendingFor h ?a)" by (simp add: sc(1))
  have awa: "awaitingFor h ?a = []" using sc(3) assms(5) by (simp add: awaitingFor_def)
  have ca: "deleteCallsOn h ?a = deleteCallsOn h s" using sc(4) by (simp add: deleteCallsOn_def)
  have "clock (run es1 ?a) < ?N" using assms(7,8) by simp
  from not_due_run[OF due awa assms(6) this]
  have c1: "deleteCallsOn h s1 = deleteCallsOn h s" using ca assms(7) by simp
  have "exclusive h es1 ?a" using assms(6) by (rule no_schedule_exclusive)
  with tra have "tracked h s1" unfolding assms(7) by (rule tracked_run)
  then have reg1: "registered h s1" by (simp add: tracked_def)
  note cn = cancel_same[OF reg1]
  have c2: "deleteCallsOn h (cancelDeletion h s1) = deleteCallsOn h s1"
    using cn(4) by (simp add: deleteCallsOn_def)
  from idle_run[OF cn(1) assms(9)] c1 c2 cn(2) show ?thesis by simp
qed

theorem cancel_prevents_deletion_witness:
  "clock (run [Elapse 1000] (scheduleDeletion exampleDM (initial 0))) < clock (initial 0) + DELETE_AFTER_MS
   \<and> map_of (scheduledDeletions
        (cancelDeletion ''m1'' (run [Elapse 1000] (scheduleDeletion exampleDM (initial 0))))) ''m1'' = None
   \<and> deleteCallsOn ''m1''
        (run [Elapse 1800000, TimerFires 0]
          (cancelDeletion ''m1'' (run [Elapse 1000] (scheduleDeletion exampleDM (initial 0))))) = []
   \<and> deleteCallsOn ''m1''
        (run [Elapse 1800000, TimerFires 0]
          (run [Elapse 1000] (scheduleDeletion exampleDM (initial 0)))) = [''m1'']"
proof -
  let ?s1 = "run [Elapse 1000] (scheduleDeletion exampleDM (initial 0))"
  have ex: "exclusive ''m1'' [] (initial 0)" by simp
  have s0: "initial 0 = run [] (initial 0)" by simp
  have m: "isDMBased exampleDM" "msg_id exampleDM = ''m1''" by (simp_all add: exampleDM_def)
  have aw: "awaitingFor ''m1'' (initial 0) = []" by (simp add: awaitingFor_def initial_def)
  have e1: "\<forall>e \<in> set [Elapse 1000]. \<not> schedules ''m1'' e" by simp
  have e2: "\<forall>e \<in> set [Elapse 1800000, TimerFires 0]. \<not> schedules ''m1'' e" by simp
  have t: "clock ?s1 < clock (initial 0) + DELETE_AFTER_MS" by (simp add: sched_eval)
  from cancel_prevents_deletion[OF ex s0 m aw e1 refl t e2]
  have a: "map_of (scheduledDeletions (cancelDeletion ''m1'' ?s1)) ''m1'' = None"
    and b: "deleteCallsOn ''m1'' (run [Elapse 1800000, TimerFires 0] (cancelDeletion ''m1'' ?s1))
            = deleteCallsOn ''m1'' (initial 0)"
    by simp_all
  have c: "deleteCallsOn ''m1'' (initial 0) = []" by (simp add: deleteCallsOn_def initial_def)
  have d: "deleteCallsOn ''m1'' (run [Elapse 1800000, TimerFires 0] ?s1) = [''m1'']"
    by (simp add: sched_eval)
  from t a b c d show ?thesis by simp
qed

text \<open>
  Without the discipline both statements fail. The callback removes the entry of its
  \<open>messageId\<close> only after the awaited delete has settled. A \<open>scheduleDeletion\<close> for the
  same message in between loses its entry to that removal and its timer stays live outside
  the registry: the next \<open>scheduleDeletion\<close> leaves two live timers for the message, and
  so does scheduling it twice more.
\<close>

theorem second_live_timer_counterexample:
  "map timer_id (pendingFor ''m1''
      (run [ScheduleDeletion exampleDM, Elapse 1800000, TimerFires 0, ScheduleDeletion exampleDM,
            DeleteSettles 0 True, ScheduleDeletion exampleDM] (initial 0))) = [1, 2]
   \<and> map_option timeout (map_of (scheduledDeletions
      (run [ScheduleDeletion exampleDM, Elapse 1800000, TimerFires 0, ScheduleDeletion exampleDM,
            DeleteSettles 0 True, ScheduleDeletion exampleDM] (initial 0))) ''m1'') = Some 2
   \<and> map timer_id (pendingFor ''m1''
      (scheduleDeletion exampleDM (scheduleDeletion exampleDM
        (run [ScheduleDeletion exampleDM, Elapse 1800000, TimerFires 0, ScheduleDeletion exampleDM,
              DeleteSettles 0 True, ScheduleDeletion exampleDM] (initial 0))))) = [1, 4]
   \<and> \<not> exclusive ''m1''
       [ScheduleDeletion exampleDM, Elapse 1800000, TimerFires 0, ScheduleDeletion exampleDM,
        DeleteSettles 0 True, ScheduleDeletion exampleDM] (initial 0)"
  by (simp add: sched_eval)

text \<open>
  In the same way a message is scheduled while the callback of its earlier timer awaits
  the delete, the callback settles and removes the new entry, and a \<open>cancelDeletion\<close>
  within the time to live finds no entry: the timer stays live, fires, and delete is called
  on the message again.
\<close>

theorem delete_after_cancel_counterexample:
  "deleteCallsOn ''m1''
      (run [ScheduleDeletion exampleDM, Elapse 1800000, TimerFires 0] (initial 0)) = [''m1'']
   \<and> clock (run [DeleteSettles 0 True, Elapse 1000]
        (scheduleDeletion exampleDM
          (run [ScheduleDeletion exampleDM, Elapse 1800000, TimerFires 0] (initial 0))))
       < clock (run [ScheduleDeletion exampleDM, Elapse 1800000, TimerFires 0] (initial 0))
         + DELETE_AFTER_MS
   \<and> map timer_id (pendingFor ''m1''
        (cancelDeletion ''m1''
          (run [DeleteSettles 0 True, Elapse 1000]
            (scheduleDeletion exampleDM
              (run [ScheduleDeletion exampleDM, Elapse 1800000, TimerFires 0] (initial 0)))))) = [1]
   \<and> deleteCallsOn ''m1''
        (run [Elapse 1800000, TimerFires 1]
          (cancelDeletion ''m1''
            (run [DeleteSettles 0 True, Elapse 1000]
              (scheduleDeletion exampleDM
                (run [ScheduleDeletion exampleDM, Elapse 1800000, TimerFires 0] (initial 0))))))
       = [''m1'', ''m1'']"
  by (simp add: sched_eval)

end
